theory Spec2Isabelle
  imports Main "HOL-Library.Sublist"
begin

section \<open>Overview\<close>

text \<open>
  The notebook \<^verbatim>\<open>python-async-def-is-a-magic-footgun.ipynb\<close> is a set of Python
  functions and coroutines that run on CPython's \<^verbatim>\<open>asyncio\<close> event loop. Its own code is
  \<^verbatim>\<open>log\<close>, \<^verbatim>\<open>os_async_write\<close>, \<^verbatim>\<open>async_sleep\<close>, \<^verbatim>\<open>write_output_async\<close>,
  \<^verbatim>\<open>do_cpu_work\<close>, \<^verbatim>\<open>write_output_awaitable\<close>, the decorator \<^verbatim>\<open>js_like_await\<close>
  and the scenarios \<^verbatim>\<open>example1\<close> .. \<^verbatim>\<open>example10\<close>.

  The embedding has three layers.
  \<^item> Plain Python functions are state-passing functions on a record \<open>world\<close> that return
    either an exception or a value (\<open>exn + 'a\<close>).
  \<^item> A coroutine object is a value of the datatype \<open>coro\<close>: its remaining code, as a tree
    whose nodes are the synchronous effects, the suspension points (\<^verbatim>\<open>yield\<close> to the
    driver) and the final \<^verbatim>\<open>return\<close> or \<^verbatim>\<open>raise\<close>. \<open>step\<close> is
    \<^verbatim>\<open>coro_obj.send(None)\<close> / \<^verbatim>\<open>coro_obj.throw(e)\<close>: it runs the code up to the next
    suspension point.
  \<^item> The classes of \<^verbatim>\<open>asyncio\<close> that the notebook instantiates (Future, Lock, Task and the
    loop's \<^verbatim>\<open>call_soon\<close>, \<^verbatim>\<open>call_later\<close>, \<^verbatim>\<open>_run_once\<close>) are library code; they are
    transcribed from CPython 3.11 (the notebook needs \<^verbatim>\<open>asyncio.TaskGroup\<close>), each with the
    library text it follows. Cancellation is not modelled (nothing in the notebook cancels),
    nor is the \<^verbatim>\<open>_asyncio_future_blocking\<close> flag: a yielded future always stands for
    \<^verbatim>\<open>await future\<close>. Time is a virtual clock counted in whole time-units:
    \<^verbatim>\<open>time.sleep(t)\<close> advances it by \<open>t\<close>, and an idle loop advances it to the next timer.
  The scenarios that use \<^verbatim>\<open>asyncio.gather\<close> and \<^verbatim>\<open>asyncio.TaskGroup\<close> (examples 3, 4, 5
  and 9) are not embedded.
\<close>

section \<open>Values, exceptions and the objects of the runtime\<close>

text \<open>
  The exceptions that the modelled code can raise. \<open>InvalidStateError\<close> is
  \<^verbatim>\<open>asyncio.InvalidStateError\<close>, raised when a future that is not pending is settled
  again (the specification calls it AlreadyResolved). \<open>Exception\<close> stands for any
  exception raised by user code.
\<close>

datatype exn =
    InvalidStateError
  | RuntimeError string
  | TypeError string
  | Exception string

datatype val = VNone | VBool bool | VStr string

type_synonym 'a result = "exn + 'a"

type_synonym fut_id = nat

text \<open>
  The callbacks that the modelled code hands to the loop:
  \<^verbatim>\<open>future.set_result\<close> with its argument (as in \<^verbatim>\<open>call_later(t, future.set_result, None)\<close>),
  \<^verbatim>\<open>Task.__step\<close> and \<^verbatim>\<open>Task.__wakeup\<close> of a task (a task is identified by its own
  future, since \<^verbatim>\<open>Task\<close> is a subclass of \<^verbatim>\<open>Future\<close>).
\<close>

datatype callback =
    SetResult fut_id val
  | TaskStep fut_id
  | TaskWakeup fut_id fut_id

datatype fstate = Pending | Resolved val | Failed exn

record future =
  state :: fstate
  callbacks :: "callback list"

record lock =
  locked :: bool
  waiters :: "fut_id list"

text \<open>
  The mutable state that the notebook's code reads and writes: the clock
  (\<^verbatim>\<open>time.time()\<close>), the global \<^verbatim>\<open>logstart\<close>, the lines printed by \<^verbatim>\<open>log\<close> (elapsed
  time and message), the heap of Future objects (a future's identity is its index), the
  loop's timer heap \<^verbatim>\<open>_scheduled\<close> (kept sorted by deadline, ties in insertion order) and
  its \<^verbatim>\<open>_ready\<close> queue, and the global \<^verbatim>\<open>write_lock = asyncio.Lock()\<close>.
\<close>

record world =
  now :: nat
  logstart :: "nat option"
  printed :: "(nat \<times> string) list"
  futures :: "future list"
  timers :: "(nat \<times> callback) list"
  ready :: "callback list"
  write_lock :: lock

text \<open>\<^verbatim>\<open>WORK_TIME = 2\<close> and \<^verbatim>\<open>WRITE_TIME = 1\<close>.\<close>

definition WORK_TIME :: nat where
  "WORK_TIME = 2"

definition WRITE_TIME :: nat where
  "WRITE_TIME = 1"

text \<open>The state in which the notebook's first cell leaves the interpreter.\<close>

definition initial_world :: world where
  "initial_world = \<lparr>now = 0, logstart = None, printed = [], futures = [], timers = [],
     ready = [], write_lock = \<lparr>locked = False, waiters = []\<rparr>\<rparr>"

subsection \<open>Plain functions: state passing with exceptions\<close>

definition ret :: "'a \<Rightarrow> 's \<Rightarrow> 'a result \<times> 's" where
  "ret a s = (Inr a, s)"

text \<open>Statement sequencing: an exception ends the function, keeping the state reached.\<close>

definition seq :: "('s \<Rightarrow> 'a result \<times> 's) \<Rightarrow> ('a \<Rightarrow> 's \<Rightarrow> 'b result \<times> 's) \<Rightarrow> 's \<Rightarrow> 'b result \<times> 's" where
  "seq m f s = (case m s of (Inl e, s') \<Rightarrow> (Inl e, s') | (Inr a, s') \<Rightarrow> f a s')"

text \<open>The decimal text of a number, as an f-string prints \<^verbatim>\<open>{i}\<close>.\<close>

definition digit :: "nat \<Rightarrow> char" where
  "digit n = ''0123456789'' ! n"

function str :: "nat \<Rightarrow> string" where
  "str n = (if n < 10 then [digit n] else str (n div 10) @ [digit (n mod 10)])"
  by pat_completeness auto
termination
  by (relation "measure id") auto

declare str.simps [simp del]

text \<open>
  \<^verbatim>\<open>
  logstart = None
  def log(*args, start: bool = False, color="0", **kwargs):
      global logstart
      current = time.time()
      if start:
          logstart = current
      print(f"...{current - logstart:2.2f}", *args, ...)
  \<close>
  The colour only changes the escape codes around the line and is left out. With
  \<^verbatim>\<open>logstart\<close> still \<^verbatim>\<open>None\<close> the subtraction raises \<^verbatim>\<open>TypeError\<close>.
\<close>

definition log :: "string \<Rightarrow> bool \<Rightarrow> world \<Rightarrow> unit result \<times> world" where
  "log msg start w =
     (let ls = (if start then Some (now w) else logstart w) in
      case ls of
        None \<Rightarrow> (Inl (TypeError ''unsupported operand type(s) for -''), w)
      | Some s \<Rightarrow> (Inr (), w\<lparr>logstart := ls, printed := printed w @ [(now w - s, msg)]\<rparr>))"

text \<open>\<^verbatim>\<open>time.sleep(t)\<close> blocks the only thread: the clock advances, nothing else runs.\<close>

definition time_sleep :: "nat \<Rightarrow> world \<Rightarrow> unit result \<times> world" where
  "time_sleep t w = (Inr (), w\<lparr>now := now w + t\<rparr>)"

subsection \<open>asyncio.Future and the loop's queues\<close>

text \<open>
  Reading a future. An index that names no future reads as a pending future without
  callbacks; every index the modelled code uses comes from \<open>create_future\<close>.
\<close>

definition get_future :: "world \<Rightarrow> fut_id \<Rightarrow> future" where
  "get_future w f =
     (if f < length (futures w) then futures w ! f else \<lparr>state = Pending, callbacks = []\<rparr>)"

definition fut_state :: "world \<Rightarrow> fut_id \<Rightarrow> fstate" where
  "fut_state w f = state (get_future w f)"

text \<open>\<^verbatim>\<open>Future.done()\<close>: \<^verbatim>\<open>return self._state != _PENDING\<close>.\<close>

definition is_done :: "world \<Rightarrow> fut_id \<Rightarrow> bool" where
  "is_done w f = (fut_state w f \<noteq> Pending)"

definition put_future :: "fut_id \<Rightarrow> future \<Rightarrow> world \<Rightarrow> world" where
  "put_future f x w = w\<lparr>futures := (futures w)[f := x]\<rparr>"

text \<open>\<^verbatim>\<open>asyncio.Future()\<close> / \<^verbatim>\<open>loop.create_future()\<close>: a new pending future.\<close>

definition create_future :: "world \<Rightarrow> fut_id \<times> world" where
  "create_future w =
     (length (futures w), w\<lparr>futures := futures w @ [\<lparr>state = Pending, callbacks = []\<rparr>]\<rparr>)"

text \<open>\<^verbatim>\<open>loop.call_soon(callback)\<close>: \<^verbatim>\<open>self._ready.append(handle)\<close>.\<close>

definition call_soon :: "callback \<Rightarrow> world \<Rightarrow> world" where
  "call_soon cb w = w\<lparr>ready := ready w @ [cb]\<rparr>"

text \<open>
  \<^verbatim>\<open>loop.call_later(delay, callback)\<close>:
  \<^verbatim>\<open>self.call_at(self.time() + delay, callback)\<close>, which pushes a timer with that deadline
  on \<^verbatim>\<open>_scheduled\<close>. The deadline is computed from the clock at the time of the call.
\<close>

fun insert_timer :: "nat \<times> callback \<Rightarrow> (nat \<times> callback) list \<Rightarrow> (nat \<times> callback) list" where
  "insert_timer x [] = [x]"
| "insert_timer x (y # ys) = (if fst x < fst y then x # y # ys else y # insert_timer x ys)"

definition call_later :: "nat \<Rightarrow> callback \<Rightarrow> world \<Rightarrow> world" where
  "call_later t cb w = w\<lparr>timers := insert_timer (now w + t, cb) (timers w)\<rparr>"

text \<open>
  Modelled from the spec: the Future component (section 4.1), which the notebook takes
  from \<^verbatim>\<open>asyncio\<close> and which is not defined in the notebook itself. \<open>resolve(value)\<close> and
  \<open>fail(error)\<close> fail with AlreadyResolved if the future is not Pending; otherwise they
  make it Resolved or Failed and enqueue every registered waiter on the ready queue, in
  registration order. \<open>register_waiter\<close> enqueues at once on a settled future. This is the
  behaviour of \<^verbatim>\<open>asyncio.Future\<close>:
  \<^verbatim>\<open>
  def set_result(self, result):
      if self._state != _PENDING:
          raise exceptions.InvalidStateError(...)
      self._result = result
      self._state = _FINISHED
      self.__schedule_callbacks()

  def set_exception(self, exception):
      if self._state != _PENDING:
          raise exceptions.InvalidStateError(...)
      self._exception = exception
      self._state = _FINISHED
      self.__schedule_callbacks()

  def __schedule_callbacks(self):
      callbacks = self._callbacks[:]
      if not callbacks:
          return
      self._callbacks[:] = []
      for callback, ctx in callbacks:
          self._loop.call_soon(callback, self, context=ctx)

  def add_done_callback(self, fn, *, context=None):
      if self._state != _PENDING:
          self._loop.call_soon(fn, self, context=context)
      else:
          self._callbacks.append((fn, context))
  \<close>
\<close>

definition schedule_callbacks :: "fut_id \<Rightarrow> world \<Rightarrow> world" where
  "schedule_callbacks f w =
     (let x = get_future w f in
      put_future f (x\<lparr>callbacks := []\<rparr>) (w\<lparr>ready := ready w @ callbacks x\<rparr>))"

definition settle :: "fut_id \<Rightarrow> fstate \<Rightarrow> world \<Rightarrow> unit result \<times> world" where
  "settle f s w =
     (if fut_state w f \<noteq> Pending then (Inl InvalidStateError, w)
      else (Inr (), schedule_callbacks f (put_future f ((get_future w f)\<lparr>state := s\<rparr>) w)))"

definition set_result :: "fut_id \<Rightarrow> val \<Rightarrow> world \<Rightarrow> unit result \<times> world" where
  "set_result f v = settle f (Resolved v)"

definition set_exception :: "fut_id \<Rightarrow> exn \<Rightarrow> world \<Rightarrow> unit result \<times> world" where
  "set_exception f e = settle f (Failed e)"

definition add_done_callback :: "fut_id \<Rightarrow> callback \<Rightarrow> world \<Rightarrow> world" where
  "add_done_callback f cb w =
     (if fut_state w f \<noteq> Pending then call_soon cb w
      else put_future f ((get_future w f)\<lparr>callbacks := callbacks (get_future w f) @ [cb]\<rparr>) w)"

text \<open>
  \<^verbatim>\<open>
  def async_sleep(t):
      # asyncio.sleep() is a coroutine, so it also messes with the time, because the
      # delay does not start when the coroutine is created
      future = asyncio.Future()
      asyncio.get_running_loop().call_later(t, future.set_result, None)
      return future
  \<close>
\<close>

definition async_sleep :: "nat \<Rightarrow> world \<Rightarrow> fut_id result \<times> world" where
  "async_sleep t w =
     (let (future, w1) = create_future w in
      (Inr future, call_later t (SetResult future VNone) w1))"

subsection \<open>Coroutines\<close>

text \<open>
  What the driver passes into a suspended coroutine: \<^verbatim>\<open>send(None)\<close> or \<^verbatim>\<open>throw(e)\<close>.
  (A task never sends another value than \<^verbatim>\<open>None\<close>.)
\<close>

datatype resume = Send | Throw exn

text \<open>
  A coroutine object is the code it still has to run:
  \<^item> \<open>Return v\<close>: \<^verbatim>\<open>return v\<close> (the driver sees \<^verbatim>\<open>StopIteration(v)\<close>);
  \<^item> \<open>Raise e\<close>: an exception leaves the coroutine;
  \<^item> \<open>Yield y k\<close>: a suspension point: \<open>y\<close> is handed to the driver (a future that is
    awaited, or \<^verbatim>\<open>None\<close> for a bare \<^verbatim>\<open>yield\<close>), and \<open>k\<close> is the code that runs when
    the driver resumes the coroutine;
  \<^item> \<open>Sync f\<close>: synchronous code: \<open>f\<close> reads and updates the state and returns the code
    that follows;
  \<^item> \<open>Spawn c k\<close>: \<^verbatim>\<open>asyncio.create_task(c)\<close>; \<open>k\<close> receives the task.
  The type is inductive, so a coroutine that is always resumed terminates.
\<close>

datatype coro =
    Return val
  | Raise exn
  | Yield "fut_id option" "resume \<Rightarrow> coro"
  | Sync "world \<Rightarrow> coro \<times> world"
  | Spawn coro "fut_id \<Rightarrow> coro"

text \<open>
  The result of \<^verbatim>\<open>coro_obj.send(None)\<close> (the specification's StepOutcome): the coroutine
  yielded and is suspended, it returned, or it raised.
\<close>

datatype outcome =
    Suspended "fut_id option" "resume \<Rightarrow> coro"
  | Completed val
  | Raised exn

text \<open>
  The objects that the notebook awaits: a Future (or Task), a coroutine object, and an
  instance of \<^verbatim>\<open>JSLikeCoroutine\<close> with its fields \<^verbatim>\<open>awaitable\<close> and \<^verbatim>\<open>coro_obj\<close>
  (the wrapped coroutine, suspended after its first step).
\<close>

datatype awaitable =
    Fut fut_id
  | Coro coro
  | JSLikeCoroutine "fut_id option" "resume \<Rightarrow> coro"

text \<open>A call of a plain function from coroutine code; an exception propagates.\<close>

definition call :: "(world \<Rightarrow> 'a result \<times> world) \<Rightarrow> ('a \<Rightarrow> coro) \<Rightarrow> coro" where
  "call f K = Sync (\<lambda>w. case f w of (Inl e, w') \<Rightarrow> (Raise e, w') | (Inr a, w') \<Rightarrow> (K a, w'))"

text \<open>
  \<open>bind c K\<close>: run \<open>c\<close> (an awaited object's code, or a block of statements), then
  continue with \<open>K\<close> on its value. Suspension points of \<open>c\<close> are suspension points of the
  whole, and whatever the driver sends or throws goes to \<open>c\<close>, as with \<^verbatim>\<open>await\<close>.
\<close>

primrec bind :: "coro \<Rightarrow> (val \<Rightarrow> coro) \<Rightarrow> coro" where
  "bind (Return v) K = K v"
| "bind (Raise e) K = Raise e"
| "bind (Yield y k) K = Yield y (\<lambda>r. bind (k r) K)"
| "bind (Sync f) K = Sync (\<lambda>w. map_prod (\<lambda>c. bind c K) id (f w))"
| "bind (Spawn c k) K = Spawn c (\<lambda>t. bind (k t) K)"

text \<open>\<^verbatim>\<open>try: c finally: fin\<close>.\<close>

primrec try_finally :: "coro \<Rightarrow> coro \<Rightarrow> coro" where
  "try_finally (Return v) fin = bind fin (\<lambda>_. Return v)"
| "try_finally (Raise e) fin = bind fin (\<lambda>_. Raise e)"
| "try_finally (Yield y k) fin = Yield y (\<lambda>r. try_finally (k r) fin)"
| "try_finally (Sync f) fin = Sync (\<lambda>w. map_prod (\<lambda>c. try_finally c fin) id (f w))"
| "try_finally (Spawn c k) fin = Spawn c (\<lambda>t. try_finally (k t) fin)"

text \<open>\<^verbatim>\<open>try: c except Exception as e: h(e)\<close>.\<close>

primrec catch :: "coro \<Rightarrow> (exn \<Rightarrow> coro) \<Rightarrow> coro" where
  "catch (Return v) h = Return v"
| "catch (Raise e) h = h e"
| "catch (Yield y k) h = Yield y (\<lambda>r. catch (k r) h)"
| "catch (Sync f) h = Sync (\<lambda>w. map_prod (\<lambda>c. catch c h) id (f w))"
| "catch (Spawn c k) h = Spawn c (\<lambda>t. catch (k t) h)"

text \<open>
  \<^verbatim>\<open>
  def __await__(self):                       # asyncio.Future
      if not self.done():
          self._asyncio_future_blocking = True
          yield self  # This tells Task to wait for completion.
      if not self.done():
          raise RuntimeError("await wasn't used with future")
      return self.result()  # May raise too.
  \<close>
  \<open>Future_result\<close> is the part after the \<^verbatim>\<open>yield\<close>.
\<close>

definition Future_result :: "fut_id \<Rightarrow> coro" where
  "Future_result f =
     Sync (\<lambda>w. (case fut_state w f of
                   Pending \<Rightarrow> Raise (RuntimeError ''await wasn't used with future'')
                 | Resolved v \<Rightarrow> Return v
                 | Failed e \<Rightarrow> Raise e, w))"

definition Future_await :: "fut_id \<Rightarrow> coro" where
  "Future_await f =
     Sync (\<lambda>w. (if is_done w f then Future_result f
                 else Yield (Some f) (\<lambda>r. case r of Send \<Rightarrow> Future_result f | Throw e \<Rightarrow> Raise e), w))"

text \<open>
  \<^verbatim>\<open>
  class JSLikeCoroutine:
      def __init__(self, awaitable, coro_obj):
          self.awaitable = awaitable
          self.coro_obj = coro_obj
      def __await__(self):
          try:
              yield self.awaitable
              while True:
                  yield self.coro_obj.send(None)
          except StopIteration as e:
              return e.value
  \<close>
  \<open>JSLikeCoroutine_loop c\<close> is the \<^verbatim>\<open>while\<close> loop when the wrapped coroutine has the
  code \<open>c\<close> left: \<^verbatim>\<open>self.coro_obj.send(None)\<close> runs \<open>c\<close> to its next suspension point and
  the value it yields is yielded on; its \<^verbatim>\<open>StopIteration\<close> ends the loop with the value,
  any other exception propagates. An exception that the driver throws in arrives at the
  \<^verbatim>\<open>yield\<close> of \<^verbatim>\<open>__await__\<close>, is not a \<^verbatim>\<open>StopIteration\<close> and propagates: the wrapped
  coroutine is only ever resumed with \<^verbatim>\<open>send(None)\<close>.
\<close>

primrec JSLikeCoroutine_loop :: "coro \<Rightarrow> coro" where
  "JSLikeCoroutine_loop (Return v) = Return v"
| "JSLikeCoroutine_loop (Raise e) = Raise e"
| "JSLikeCoroutine_loop (Yield y k) =
     Yield y (\<lambda>r. case r of Send \<Rightarrow> JSLikeCoroutine_loop (k Send) | Throw e \<Rightarrow> Raise e)"
| "JSLikeCoroutine_loop (Sync f) = Sync (\<lambda>w. map_prod JSLikeCoroutine_loop id (f w))"
| "JSLikeCoroutine_loop (Spawn c k) = Spawn c (\<lambda>t. JSLikeCoroutine_loop (k t))"

definition JSLikeCoroutine_await :: "fut_id option \<Rightarrow> (resume \<Rightarrow> coro) \<Rightarrow> coro" where
  "JSLikeCoroutine_await awaitable coro_obj =
     Yield awaitable (\<lambda>r. case r of Send \<Rightarrow> JSLikeCoroutine_loop (coro_obj Send) | Throw e \<Rightarrow> Raise e)"

text \<open>\<^verbatim>\<open>await x\<close>: the code of \<^verbatim>\<open>x.__await__()\<close>, or of \<open>x\<close> itself for a coroutine object.\<close>

fun await :: "awaitable \<Rightarrow> coro" where
  "await (Fut f) = Future_await f"
| "await (Coro c) = c"
| "await (JSLikeCoroutine y k) = JSLikeCoroutine_await y k"

subsection \<open>asyncio.Lock (the global write_lock)\<close>

text \<open>
  \<^verbatim>\<open>asyncio.Lock\<close> is library code. \<^verbatim>\<open>acquire\<close> is a coroutine function: calling it
  creates a coroutine object and runs none of its body.
  \<^verbatim>\<open>
  async def acquire(self):
      if (not self._locked and (self._waiters is None or
              all(w.cancelled() for w in self._waiters))):
          self._locked = True
          return True
      if self._waiters is None:
          self._waiters = collections.deque()
      fut = self._get_loop().create_future()
      self._waiters.append(fut)
      try:
          try:
              await fut
          finally:
              self._waiters.remove(fut)
      except exceptions.CancelledError:
          if not self._locked:
              self._wake_up_first()
          raise
      self._locked = True
      return True

  def release(self):
      if self._locked:
          self._locked = False
          self._wake_up_first()
      else:
          raise RuntimeError('Lock is not acquired.')

  def _wake_up_first(self):
      if not self._waiters:
          return
      try:
          fut = next(iter(self._waiters))
      except StopIteration:
          return
      if not fut.done():
          fut.set_result(True)
  \<close>
  Without cancellation, "all waiters are cancelled" holds only of an empty queue.
\<close>

definition set_lock :: "lock \<Rightarrow> world \<Rightarrow> world" where
  "set_lock x w = w\<lparr>write_lock := x\<rparr>"

definition Lock_wake_up_first :: "world \<Rightarrow> world" where
  "Lock_wake_up_first w =
     (case waiters (write_lock w) of
        [] \<Rightarrow> w
      | fut # _ \<Rightarrow> (if \<not> is_done w fut then snd (set_result fut (VBool True) w) else w))"

definition Lock_release :: "world \<Rightarrow> unit result \<times> world" where
  "Lock_release w =
     (if locked (write_lock w)
      then (Inr (), Lock_wake_up_first (set_lock ((write_lock w)\<lparr>locked := False\<rparr>) w))
      else (Inl (RuntimeError ''Lock is not acquired.''), w))"

definition Lock_acquire :: coro where
  "Lock_acquire =
     Sync (\<lambda>w.
       if \<not> locked (write_lock w) \<and> waiters (write_lock w) = []
       then (Return (VBool True), set_lock ((write_lock w)\<lparr>locked := True\<rparr>) w)
       else (let (fut, w1) = create_future w;
                 w2 = set_lock ((write_lock w1)\<lparr>waiters := waiters (write_lock w1) @ [fut]\<rparr>) w1
             in (bind
                   (try_finally (Future_await fut)
                      (Sync (\<lambda>w. (Return VNone,
                         set_lock ((write_lock w)\<lparr>waiters := remove1 fut (waiters (write_lock w))\<rparr>) w))))
                   (\<lambda>_. Sync (\<lambda>w. (Return (VBool True), set_lock ((write_lock w)\<lparr>locked := True\<rparr>) w))),
                 w2)))"

subsection \<open>Tasks and the event loop\<close>

text \<open>
  The loop: the world, and for every unfinished task its coroutine (the code that runs
  when the task is resumed).
\<close>

record loop =
  wld :: world
  tasks :: "fut_id \<Rightarrow> (resume \<Rightarrow> coro) option"

text \<open>
  A coroutine object that has not run yet: \<^verbatim>\<open>send(None)\<close> starts its code,
  \<^verbatim>\<open>throw(e)\<close> raises \<open>e\<close> at once.
\<close>

definition start :: "coro \<Rightarrow> resume \<Rightarrow> coro" where
  "start c r = (case r of Send \<Rightarrow> c | Throw e \<Rightarrow> Raise e)"

text \<open>
  \<^verbatim>\<open>asyncio.create_task(coro)\<close> is library code. The constructor of \<^verbatim>\<open>Task\<close> ends with
  \<^verbatim>\<open>self._loop.call_soon(self.__step, context=self._context)\<close>: the task's first step is
  put on the ready queue and no code of the coroutine runs. The notebook records this
  behaviour under \<^verbatim>\<open>example6_await_before_next_write_with_task\<close>: "The task was created,
  but because nothing else was ever awaited, the event loop never started executing our
  task", and its transcript shows \<^verbatim>\<open>[O0] >> Tell OS to write output 0\<close> at 4.04, after the
  second CPU work.
\<close>

definition create_task :: "coro \<Rightarrow> loop \<Rightarrow> fut_id \<times> loop" where
  "create_task c l =
     (let (t, w1) = create_future (wld l) in
      (t, l\<lparr>wld := call_soon (TaskStep t) w1, tasks := (tasks l)(t \<mapsto> start c)\<rparr>))"

text \<open>
  \<open>step c l\<close> is \<^verbatim>\<open>coro_obj.send(None)\<close> for a coroutine with the code \<open>c\<close> left (and
  \<^verbatim>\<open>throw(e)\<close> for \<open>c = k (Throw e)\<close>): it runs \<open>c\<close> up to its next suspension point, its
  return or its exception.
\<close>

primrec step :: "coro \<Rightarrow> loop \<Rightarrow> outcome \<times> loop" where
  "step (Return v) l = (Completed v, l)"
| "step (Raise e) l = (Raised e, l)"
| "step (Yield y k) l = (Suspended y k, l)"
| "step (Sync f) l = (case map_prod step id (f (wld l)) of (r, w') \<Rightarrow> r (l\<lparr>wld := w'\<rparr>))"
| "step (Spawn c k) l = (case create_task c l of (t, l') \<Rightarrow> step (k t) l')"

text \<open>
  \<^verbatim>\<open>
  def __step(self, exc=None):                  # asyncio.Task
      ...
      try:
          if exc is None:
              result = coro.send(None)
          else:
              result = coro.throw(exc)
      except StopIteration as exc:
          super().set_result(exc.value)
      except BaseException as exc:
          super().set_exception(exc)
      else:
          blocking = getattr(result, '_asyncio_future_blocking', None)
          if blocking is not None:
              ...
              result._asyncio_future_blocking = False
              result.add_done_callback(self.__wakeup, context=self._context)
          elif result is None:
              # Bare yield relinquishes control for one event loop iteration.
              self._loop.call_soon(self.__step, context=self._context)

  def __wakeup(self, future):
      try:
          future.result()
      except BaseException as exc:
          self.__step(exc)
      else:
          self.__step()
  \<close>
\<close>

definition task_step :: "fut_id \<Rightarrow> resume \<Rightarrow> loop \<Rightarrow> loop" where
  "task_step t r l =
     (case tasks l t of
        None \<Rightarrow> l
      | Some coro \<Rightarrow>
          (case step (coro r) l of
             (Completed v, l') \<Rightarrow>
               l'\<lparr>wld := snd (set_result t v (wld l')), tasks := (tasks l')(t := None)\<rparr>
           | (Raised e, l') \<Rightarrow>
               l'\<lparr>wld := snd (set_exception t e (wld l')), tasks := (tasks l')(t := None)\<rparr>
           | (Suspended (Some f) k, l') \<Rightarrow>
               l'\<lparr>wld := add_done_callback f (TaskWakeup t f) (wld l'), tasks := (tasks l')(t \<mapsto> k)\<rparr>
           | (Suspended None k, l') \<Rightarrow>
               l'\<lparr>wld := call_soon (TaskStep t) (wld l'), tasks := (tasks l')(t \<mapsto> k)\<rparr>))"

definition wakeup_resume :: "world \<Rightarrow> fut_id \<Rightarrow> resume" where
  "wakeup_resume w f = (case fut_state w f of Failed e \<Rightarrow> Throw e | _ \<Rightarrow> Send)"

definition task_wakeup :: "fut_id \<Rightarrow> fut_id \<Rightarrow> loop \<Rightarrow> loop" where
  "task_wakeup t f l = task_step t (wakeup_resume (wld l) f) l"

text \<open>
  Running a handle of the ready queue. An exception of a callback (a second
  \<^verbatim>\<open>set_result\<close>) is reported by the loop's exception handler and the loop goes on.
\<close>

fun run_callback :: "callback \<Rightarrow> loop \<Rightarrow> loop" where
  "run_callback (SetResult f v) l = l\<lparr>wld := snd (set_result f v (wld l))\<rparr>"
| "run_callback (TaskStep t) l = task_step t Send l"
| "run_callback (TaskWakeup t f) l = task_wakeup t f l"

text \<open>
  \<^verbatim>\<open>
  def _run_once(self):                         # asyncio.BaseEventLoop
      ...
      timeout = None
      if self._ready or self._stopping:
          timeout = 0
      elif self._scheduled:
          # Compute the desired timeout.
          timeout = min(max(0, self._scheduled[0]._when - self.time()), MAXIMUM_SELECT_TIMEOUT)
      event_list = self._selector.select(timeout)
      self._process_events(event_list)
      # Handle 'later' callbacks that are ready.
      end_time = self.time() + self._clock_resolution
      while self._scheduled:
          handle = self._scheduled[0]
          if handle._when >= end_time:
              break
          handle = heapq.heappop(self._scheduled)
          self._ready.append(handle)
      # This is the only place where callbacks are actually *called*.
      ntodo = len(self._ready)
      for i in range(ntodo):
          handle = self._ready.popleft()
          handle._run()
  \<close>
  On the virtual clock, \<^verbatim>\<open>select(timeout)\<close> with an empty ready queue moves the clock to
  the first deadline. Callbacks that are queued while the \<open>ntodo\<close> handles run stay in the
  queue for the next iteration.
\<close>

definition run_once :: "loop \<Rightarrow> loop" where
  "run_once l =
     (let w = wld l;
          w1 = (if ready w = [] then
                  (case timers w of [] \<Rightarrow> w | (t, _) # _ \<Rightarrow> w\<lparr>now := max (now w) t\<rparr>)
                else w);
          due = takeWhile (\<lambda>(t, _). t \<le> now w1) (timers w1);
          todo = ready w1 @ map snd due;
          w2 = w1\<lparr>timers := dropWhile (\<lambda>(t, _). t \<le> now w1) (timers w1), ready := []\<rparr>
      in foldl (\<lambda>l cb. run_callback cb l) (l\<lparr>wld := w2\<rparr>) todo)"

text \<open>
  \<^verbatim>\<open>loop.run_until_complete(task)\<close>: iterate until the task is done. The number of
  iterations is bounded by the fuel; \<open>None\<close> means that the task was not done within it.
\<close>

fun run_until_complete :: "nat \<Rightarrow> fut_id \<Rightarrow> loop \<Rightarrow> loop option" where
  "run_until_complete 0 t l = (if is_done (wld l) t then Some l else None)"
| "run_until_complete (Suc n) t l =
     (if is_done (wld l) t then Some l else run_until_complete n t (run_once l))"

text \<open>
  A notebook cell \<^verbatim>\<open>await main()\<close>: the coroutine runs as a task of the loop, which starts
  with no other task.
\<close>

definition run_main :: "nat \<Rightarrow> coro \<Rightarrow> world \<Rightarrow> loop option" where
  "run_main fuel main w =
     (case create_task main \<lparr>wld = w, tasks = Map.empty\<rparr> of
        (t, l) \<Rightarrow> run_until_complete fuel t l)"

section \<open>The notebook's functions\<close>

text \<open>
  \<^verbatim>\<open>
  def do_cpu_work(i):
      log(f"[X{i}] > Starting 10s CPU work {i}", color="93")
      time.sleep(WORK_TIME)
      gc.collect()
      log(f"[X{i}] < Done with 10s CPU work {i}", color="93")
  \<close>
  \<^verbatim>\<open>gc.collect()\<close> changes nothing that the model observes.
\<close>

definition do_cpu_work :: "nat \<Rightarrow> world \<Rightarrow> unit result \<times> world" where
  "do_cpu_work i =
     seq (log (''[X'' @ str i @ ''] > Starting 10s CPU work '' @ str i) False) (\<lambda>_.
     seq (time_sleep WORK_TIME) (\<lambda>_.
     log (''[X'' @ str i @ ''] < Done with 10s CPU work '' @ str i) False))"

text \<open>
  \<^verbatim>\<open>
  write_lock = asyncio.Lock()
  def os_async_write(i, lock=False):
      log(f"[W{i}] >>> OS started writing {i}", color="94")
      if not lock:
          async def _wait_for_write(sleep_awaitable):
              await sleep_awaitable
              log(f"[W{i}] <<< OS done writing {i}", color="94")
          return _wait_for_write(async_sleep(WRITE_TIME))

      lock_awaitable = write_lock.acquire()
      async def _wait_for_write(lock_awaitable):
          await lock_awaitable
          try:
              await async_sleep(WRITE_TIME)
          finally:
              if lock:
                  write_lock.release()
      return _wait_for_write(lock_awaitable)
  \<close>
  The two inner coroutine functions are \<open>wait_for_write\<close> and \<open>wait_for_write_locked\<close>.
  \<^verbatim>\<open>write_lock.acquire()\<close> is a call of a coroutine function: its value is the coroutine
  object \<open>Coro Lock_acquire\<close>, and the call changes no state.
\<close>

definition wait_for_write :: "nat \<Rightarrow> awaitable \<Rightarrow> coro" where
  "wait_for_write i sleep_awaitable =
     bind (await sleep_awaitable) (\<lambda>_.
     call (log (''[W'' @ str i @ ''] <<< OS done writing '' @ str i) False) (\<lambda>_.
     Return VNone))"

definition wait_for_write_locked :: "bool \<Rightarrow> awaitable \<Rightarrow> coro" where
  "wait_for_write_locked lock lock_awaitable =
     bind (await lock_awaitable) (\<lambda>_.
     try_finally
       (call (async_sleep WRITE_TIME) (\<lambda>fut. bind (await (Fut fut)) (\<lambda>_. Return VNone)))
       (if lock then call Lock_release (\<lambda>_. Return VNone) else Return VNone))"

definition os_async_write :: "nat \<Rightarrow> bool \<Rightarrow> world \<Rightarrow> awaitable result \<times> world" where
  "os_async_write i lock =
     seq (log (''[W'' @ str i @ ''] >>> OS started writing '' @ str i) False) (\<lambda>_.
     if \<not> lock then
       seq (async_sleep WRITE_TIME) (\<lambda>fut. ret (Coro (wait_for_write i (Fut fut))))
     else
       (let lock_awaitable = Coro Lock_acquire in
        ret (Coro (wait_for_write_locked lock lock_awaitable))))"

text \<open>
  \<^verbatim>\<open>
  async def write_output_async(i, lock=False):
      log(f"[O{i}] >> Tell OS to write output {i}")
      await os_async_write(i, lock=lock)
      log(f"[O{i}] << OS writing completed {i}")
  \<close>
  Calling \<^verbatim>\<open>write_output_async(i)\<close> creates the coroutine object
  \<open>write_output_async i False\<close> and runs nothing.
\<close>

definition write_output_async :: "nat \<Rightarrow> bool \<Rightarrow> coro" where
  "write_output_async i lock =
     call (log (''[O'' @ str i @ ''] >> Tell OS to write output '' @ str i) False) (\<lambda>_.
     call (os_async_write i lock) (\<lambda>aw.
     bind (await aw) (\<lambda>_.
     call (log (''[O'' @ str i @ ''] << OS writing completed '' @ str i) False) (\<lambda>_.
     Return VNone))))"

text \<open>
  \<^verbatim>\<open>
  def write_output_awaitable(i, lock=False):
      log(f"[O{i}] << Tell OS to write output {i}")
      awaitable = os_async_write(i, lock=lock)

      async def _wait_for_inner(awaitable):
          await awaitable
          log(f"[O{i}] << OS writing completed {i}")
      return _wait_for_inner(awaitable)
  \<close>
\<close>

definition write_output_awaitable :: "nat \<Rightarrow> bool \<Rightarrow> world \<Rightarrow> awaitable result \<times> world" where
  "write_output_awaitable i lock =
     seq (log (''[O'' @ str i @ ''] << Tell OS to write output '' @ str i) False) (\<lambda>_.
     seq (os_async_write i lock) (\<lambda>awaitable.
     ret (Coro (bind (await awaitable) (\<lambda>_.
                call (log (''[O'' @ str i @ ''] << OS writing completed '' @ str i) False) (\<lambda>_.
                Return VNone))))))"

subsection \<open>The eager adapter js_like_await\<close>

text \<open>
  \<^verbatim>\<open>
  def js_like_await(coro):
      class JSLikeCoroutine: ...
      def coroutine_with_js_like_await(*args, **kwargs):
          coro_obj = coro(*args, **kwargs)
          future = None
          try:
              future = coro_obj.send(None)
              return JSLikeCoroutine(future, coro_obj)
          except StopIteration as e:
              result = asyncio.Future()
              result.set_result(e.value)
              return result
      return coroutine_with_js_like_await
  \<close>
  The argument is the coroutine object \<^verbatim>\<open>coro(*args, **kwargs)\<close>. Only
  \<^verbatim>\<open>StopIteration\<close> is caught: an exception of the first step leaves
  \<^verbatim>\<open>coroutine_with_js_like_await\<close> and reaches its caller.
\<close>

definition coroutine_with_js_like_await :: "coro \<Rightarrow> loop \<Rightarrow> awaitable result \<times> loop" where
  "coroutine_with_js_like_await coro_obj l =
     (case step coro_obj l of
        (Suspended future k, l') \<Rightarrow> (Inr (JSLikeCoroutine future k), l')
      | (Completed v, l') \<Rightarrow>
          (let (result, w1) = create_future (wld l') in
           case set_result result v w1 of
             (Inl e, w2) \<Rightarrow> (Inl e, l'\<lparr>wld := w2\<rparr>)
           | (Inr _, w2) \<Rightarrow> (Inr (Fut result), l'\<lparr>wld := w2\<rparr>))
      | (Raised e, l') \<Rightarrow> (Inl e, l'))"

text \<open>
  The same function when it is called from the code of a coroutine: the first step of
  \<open>coro_obj\<close> runs as part of the caller's synchronous code, then the caller goes on with
  the handle (\<open>K\<close>), or with the exception. \<open>step_inline c K\<close> is "\<^verbatim>\<open>c.send(None)\<close>, then
  \<open>K\<close> on its outcome" as code of the caller; the lemmas \<open>step_step_inline\<close> and
  \<open>step_call_js_like\<close> below show that it is \<open>coroutine_with_js_like_await\<close> followed by
  the caller's code.
\<close>

primrec step_inline :: "coro \<Rightarrow> (outcome \<Rightarrow> coro) \<Rightarrow> coro" where
  "step_inline (Return v) K = K (Completed v)"
| "step_inline (Raise e) K = K (Raised e)"
| "step_inline (Yield y k) K = K (Suspended y k)"
| "step_inline (Sync f) K = Sync (\<lambda>w. map_prod (\<lambda>c. step_inline c K) id (f w))"
| "step_inline (Spawn c k) K = Spawn c (\<lambda>t. step_inline (k t) K)"

definition call_js_like :: "coro \<Rightarrow> (awaitable \<Rightarrow> coro) \<Rightarrow> coro" where
  "call_js_like coro_obj K =
     step_inline coro_obj (\<lambda>r. case r of
        Suspended future k \<Rightarrow> K (JSLikeCoroutine future k)
      | Completed v \<Rightarrow>
          Sync (\<lambda>w. let (result, w1) = create_future w in
                case set_result result v w1 of
                  (Inl e, w2) \<Rightarrow> (Raise e, w2)
                | (Inr _, w2) \<Rightarrow> (K (Fut result), w2))
      | Raised e \<Rightarrow> Raise e)"

section \<open>The notebook's scenarios\<close>

text \<open>
  \<^verbatim>\<open>await lastWrite\<close> after the loop (awaiting \<^verbatim>\<open>None\<close> is a \<^verbatim>\<open>TypeError\<close>), and
  \<^verbatim>\<open>if lastWrite: await lastWrite\<close> inside it.
\<close>

definition await_opt :: "awaitable option \<Rightarrow> coro" where
  "await_opt a = (case a of
       None \<Rightarrow> Raise (TypeError ''object NoneType can't be used in 'await' expression'')
     | Some x \<Rightarrow> await x)"

definition await_if :: "awaitable option \<Rightarrow> coro" where
  "await_if a = (case a of None \<Rightarrow> Return VNone | Some x \<Rightarrow> await x)"

text \<open>
  Every scenario is a loop over \<^verbatim>\<open>range(3)\<close>; the loop is a recursion over the list of the
  remaining values of \<open>i\<close>, with \<open>lastWrite\<close> as its state. The notebook's scenarios call
  \<^verbatim>\<open>write_output_async(i)\<close> with the default \<^verbatim>\<open>lock=False\<close>; the parameter \<open>lock\<close> of the
  definitions below is that argument, so that the same loop can also be run with the
  single-writer lock (\<open>lock = True\<close>).

  \<^verbatim>\<open>
  async def example1_await_immediately():
      log("Starting", start=True)
      for i in range(3):
          do_cpu_work(i)
          await write_output_async(i)
      log("Done")
  \<close>
\<close>

primrec example1_loop :: "nat list \<Rightarrow> bool \<Rightarrow> coro" where
  "example1_loop [] lock = call (log ''Done'' False) (\<lambda>_. Return VNone)"
| "example1_loop (i # is) lock =
     call (do_cpu_work i) (\<lambda>_.
     bind (write_output_async i lock) (\<lambda>_.
     example1_loop is lock))"

definition example1_await_immediately :: "bool \<Rightarrow> coro" where
  "example1_await_immediately lock =
     call (log ''Starting'' True) (\<lambda>_. example1_loop [0..<3] lock)"

text \<open>
  \<^verbatim>\<open>
  async def example2_await_before_next_write():
      log("Starting", start=True)
      lastWrite = None
      for i in range(3):
          do_cpu_work(i)
          if lastWrite:
              await lastWrite
          lastWrite = write_output_async(i)
      await lastWrite
      log("Done")
  \<close>
\<close>

primrec example2_loop :: "nat list \<Rightarrow> bool \<Rightarrow> awaitable option \<Rightarrow> coro" where
  "example2_loop [] lock lastWrite =
     bind (await_opt lastWrite) (\<lambda>_.
     call (log ''Done'' False) (\<lambda>_. Return VNone))"
| "example2_loop (i # is) lock lastWrite =
     call (do_cpu_work i) (\<lambda>_.
     bind (await_if lastWrite) (\<lambda>_.
     example2_loop is lock (Some (Coro (write_output_async i lock)))))"

definition example2_await_before_next_write :: "bool \<Rightarrow> coro" where
  "example2_await_before_next_write lock =
     call (log ''Starting'' True) (\<lambda>_. example2_loop [0..<3] lock None)"

text \<open>
  \<^verbatim>\<open>
  async def example6_await_before_next_write_with_task():
      log("Starting", start=True)
      lastWrite = None
      for i in range(3):
          do_cpu_work(i)
          if lastWrite:
              await lastWrite
          lastWrite = asyncio.create_task(write_output_async(i))
      await lastWrite
      log("Done")
  \<close>
\<close>

primrec example6_loop :: "nat list \<Rightarrow> bool \<Rightarrow> awaitable option \<Rightarrow> coro" where
  "example6_loop [] lock lastWrite =
     bind (await_opt lastWrite) (\<lambda>_.
     call (log ''Done'' False) (\<lambda>_. Return VNone))"
| "example6_loop (i # is) lock lastWrite =
     call (do_cpu_work i) (\<lambda>_.
     bind (await_if lastWrite) (\<lambda>_.
     Spawn (write_output_async i lock) (\<lambda>t.
     example6_loop is lock (Some (Fut t)))))"

definition example6_await_before_next_write_with_task :: "bool \<Rightarrow> coro" where
  "example6_await_before_next_write_with_task lock =
     call (log ''Starting'' True) (\<lambda>_. example6_loop [0..<3] lock None)"

text \<open>
  \<^verbatim>\<open>await asyncio.sleep(0)\<close>: a bare \<^verbatim>\<open>yield\<close> (\<^verbatim>\<open>asyncio.tasks.__sleep0\<close>).
  \<^verbatim>\<open>
  async def example7_sleep_with_task():
      log("Starting", start=True)
      lastWrite = None
      for i in range(3):
          do_cpu_work(i)
          if lastWrite:
              await lastWrite
          lastWrite = asyncio.create_task(write_output_async(i))
          await asyncio.sleep(0)
      log("Awaiting last write")
      await lastWrite
      log("Done")
  \<close>
\<close>

definition asyncio_sleep0 :: coro where
  "asyncio_sleep0 = Yield None (\<lambda>r. case r of Send \<Rightarrow> Return VNone | Throw e \<Rightarrow> Raise e)"

primrec example7_loop :: "nat list \<Rightarrow> bool \<Rightarrow> awaitable option \<Rightarrow> coro" where
  "example7_loop [] lock lastWrite =
     call (log ''Awaiting last write'' False) (\<lambda>_.
     bind (await_opt lastWrite) (\<lambda>_.
     call (log ''Done'' False) (\<lambda>_. Return VNone)))"
| "example7_loop (i # is) lock lastWrite =
     call (do_cpu_work i) (\<lambda>_.
     bind (await_if lastWrite) (\<lambda>_.
     Spawn (write_output_async i lock) (\<lambda>t.
     bind asyncio_sleep0 (\<lambda>_.
     example7_loop is lock (Some (Fut t))))))"

definition example7_sleep_with_task :: "bool \<Rightarrow> coro" where
  "example7_sleep_with_task lock =
     call (log ''Starting'' True) (\<lambda>_. example7_loop [0..<3] lock None)"

text \<open>
  \<^verbatim>\<open>
  async def example2_await_before_next_write_fixed_function():
      log("Starting", start=True)
      lastWrite = None
      for i in range(3):
          do_cpu_work(i)
          if lastWrite:
              await lastWrite
          lastWrite = write_output_awaitable(i)
      log("Awaiting last write")
      await lastWrite
      log("Done")
  \<close>
\<close>

primrec example2_fixed_loop :: "nat list \<Rightarrow> bool \<Rightarrow> awaitable option \<Rightarrow> coro" where
  "example2_fixed_loop [] lock lastWrite =
     call (log ''Awaiting last write'' False) (\<lambda>_.
     bind (await_opt lastWrite) (\<lambda>_.
     call (log ''Done'' False) (\<lambda>_. Return VNone)))"
| "example2_fixed_loop (i # is) lock lastWrite =
     call (do_cpu_work i) (\<lambda>_.
     bind (await_if lastWrite) (\<lambda>_.
     call (write_output_awaitable i lock) (\<lambda>a.
     example2_fixed_loop is lock (Some a))))"

definition example2_await_before_next_write_fixed_function :: "bool \<Rightarrow> coro" where
  "example2_await_before_next_write_fixed_function lock =
     call (log ''Starting'' True) (\<lambda>_. example2_fixed_loop [0..<3] lock None)"

text \<open>
  \<^verbatim>\<open>
  fixed_write_output_async = js_like_await(write_output_async)

  async def example10_fixed_write_with_gather():
      log("Starting", start=True)
      lastWrite = None
      for i in range(3):
          do_cpu_work(i)
          if lastWrite:
              await lastWrite
          lastWrite = fixed_write_output_async(i)
      log("Awaiting last write")
      await lastWrite
      log("Done")
  \<close>
\<close>

primrec example10_loop :: "nat list \<Rightarrow> bool \<Rightarrow> awaitable option \<Rightarrow> coro" where
  "example10_loop [] lock lastWrite =
     call (log ''Awaiting last write'' False) (\<lambda>_.
     bind (await_opt lastWrite) (\<lambda>_.
     call (log ''Done'' False) (\<lambda>_. Return VNone)))"
| "example10_loop (i # is) lock lastWrite =
     call (do_cpu_work i) (\<lambda>_.
     bind (await_if lastWrite) (\<lambda>_.
     call_js_like (write_output_async i lock) (\<lambda>h.
     example10_loop is lock (Some h))))"

definition example10_fixed_write_with_gather :: "bool \<Rightarrow> coro" where
  "example10_fixed_write_with_gather lock =
     call (log ''Starting'' True) (\<lambda>_. example10_loop [0..<3] lock None)"

text \<open>What a finished run shows: the clock and the printed lines.\<close>

definition transcript :: "loop option \<Rightarrow> (nat \<times> (nat \<times> string) list) option" where
  "transcript r = map_option (\<lambda>l. (now (wld l), printed (wld l))) r"

definition end_time :: "loop option \<Rightarrow> nat option" where
  "end_time r = map_option (\<lambda>l. now (wld l)) r"

section \<open>Drivers, observations and test scenarios\<close>

text \<open>
  The definitions of this section are not code of the notebook: they are the drivers,
  the observations and the small test programs in terms of which the properties are
  stated.
\<close>

text \<open>
  Driving a coroutine by plain sends, as a task does while every future it waits for
  succeeds: after each suspension the environment acts (the loop runs other callbacks,
  timers fire, the caller computes), then the coroutine is resumed with \<^verbatim>\<open>send(None)\<close>.
  The list holds one environment step per suspension; when it is used up the coroutine
  is left suspended.
\<close>

primrec drive :: "(loop \<Rightarrow> loop) list \<Rightarrow> coro \<Rightarrow> loop \<Rightarrow> outcome \<times> loop" where
  "drive [] c l = step c l"
| "drive (e # es) c l =
     (case step c l of
        (Suspended y k, l') \<Rightarrow> drive es (k Send) (e l')
      | (Completed v, l') \<Rightarrow> (Completed v, l')
      | (Raised x, l') \<Rightarrow> (Raised x, l'))"

text \<open>What a driver sees of an outcome: the object yielded, or the final value or error.\<close>

fun observe :: "outcome \<Rightarrow> fut_id option + val result" where
  "observe (Suspended y k) = Inl y"
| "observe (Completed v) = Inr (Inr v)"
| "observe (Raised e) = Inr (Inl e)"

text \<open>
  The side effects of code on the world other than the creation of futures: the clock,
  \<^verbatim>\<open>logstart\<close>, the printed lines, the timers, the ready queue and the lock.
\<close>

definition effects ::
  "loop \<Rightarrow> nat \<times> nat option \<times> (nat \<times> string) list \<times> (nat \<times> callback) list \<times> callback list \<times> lock" where
  "effects l = (now (wld l), logstart (wld l), printed (wld l), timers (wld l), ready (wld l),
     write_lock (wld l))"

text \<open>The loop of a notebook cell right after \<^verbatim>\<open>log("Starting", start=True)\<close>.\<close>

definition started_loop :: loop where
  "started_loop = \<lparr>wld = snd (log ''Starting'' True initial_world), tasks = Map.empty\<rparr>"

text \<open>
  The same loop with one pending future (future 0), and the environment step that
  resolves it.
\<close>

definition pending_loop :: loop where
  "pending_loop = started_loop\<lparr>wld := snd (create_future (wld started_loop))\<rparr>"

definition resolve_first :: "loop \<Rightarrow> loop" where
  "resolve_first l = l\<lparr>wld := snd (set_result 0 VNone (wld l))\<rparr>"

text \<open>
  A computation that fails before it reaches a suspension point:
  \<^verbatim>\<open>
  async def fails_at_once():
      log("marker")
      raise Exception("boom")
  \<close>
\<close>

definition fails_at_once :: coro where
  "fails_at_once = call (log ''marker'' False) (\<lambda>_. Raise (Exception ''boom''))"

text \<open>
  A computation that handles the failure of the future it awaits, run through the eager
  adapter and as a task:
  \<^verbatim>\<open>
  async def recovering(fut):
      try:
          await fut
          return "ok"
      except Exception:
          return "recovered"

  async def failing_future_eager():
      fut = asyncio.Future()
      handle = js_like_await(recovering)(fut)
      fut.set_exception(Exception("boom"))
      return await handle

  async def failing_future_lazy():
      fut = asyncio.Future()
      task = asyncio.create_task(recovering(fut))
      await asyncio.sleep(0)
      fut.set_exception(Exception("boom"))
      return await task
  \<close>
\<close>

definition recovering :: "fut_id \<Rightarrow> coro" where
  "recovering fut =
     catch (bind (await (Fut fut)) (\<lambda>_. Return (VStr ''ok''))) (\<lambda>e. Return (VStr ''recovered''))"

definition failing_future_eager :: coro where
  "failing_future_eager =
     Sync (\<lambda>w. case create_future w of (fut, w1) \<Rightarrow>
       (call_js_like (recovering fut) (\<lambda>handle.
        call (set_exception fut (Exception ''boom'')) (\<lambda>_.
        await handle)), w1))"

definition failing_future_lazy :: coro where
  "failing_future_lazy =
     Sync (\<lambda>w. case create_future w of (fut, w1) \<Rightarrow>
       (Spawn (recovering fut) (\<lambda>task.
        bind asyncio_sleep0 (\<lambda>_.
        call (set_exception fut (Exception ''boom'')) (\<lambda>_.
        await (Fut task)))), w1))"

text \<open>The result of a finished run: the state of the main task's future (the first one).\<close>

definition main_result :: "loop option \<Rightarrow> fstate option" where
  "main_result r = map_option (\<lambda>l. fut_state (wld l) 0) r"

text \<open>
  A timed wait that is created, then awaited after \<open>d\<close> time-units of blocking work:
  \<^verbatim>\<open>
  async def sleep_then_work(t, d):
      fut = async_sleep(t)
      time.sleep(d)
      return await fut
  \<close>
\<close>

definition sleep_then_work :: "nat \<Rightarrow> nat \<Rightarrow> coro" where
  "sleep_then_work t d =
     call (async_sleep t) (\<lambda>fut.
     call (time_sleep d) (\<lambda>_.
     await (Fut fut)))"

text \<open>
  Settling one future several times: the calls of \<^verbatim>\<open>set_result\<close> and
  \<^verbatim>\<open>set_exception\<close> in the order given, with the result of each.
\<close>

datatype settle_call = CallSetResult val | CallSetException exn

fun apply_settle_call :: "fut_id \<Rightarrow> settle_call \<Rightarrow> world \<Rightarrow> unit result \<times> world" where
  "apply_settle_call f (CallSetResult v) w = set_result f v w"
| "apply_settle_call f (CallSetException e) w = set_exception f e w"

fun settled_as :: "settle_call \<Rightarrow> fstate" where
  "settled_as (CallSetResult v) = Resolved v"
| "settled_as (CallSetException e) = Failed e"

fun apply_settle_calls :: "fut_id \<Rightarrow> settle_call list \<Rightarrow> world \<Rightarrow> unit result list \<times> world" where
  "apply_settle_calls f [] w = ([], w)"
| "apply_settle_calls f (c # cs) w =
     (case apply_settle_call f c w of (r, w') \<Rightarrow>
      (case apply_settle_calls f cs w' of (rs, w'') \<Rightarrow> (r # rs, w'')))"

text \<open>
  Two locked writes requested in the order 0, 1, whose awaitables are then driven in
  the order 1, 0.
\<close>

definition awaited :: "awaitable result \<Rightarrow> coro" where
  "awaited r = (case r of Inl e \<Rightarrow> Raise e | Inr a \<Rightarrow> await a)"

definition first_locked_write :: "awaitable result \<times> world" where
  "first_locked_write = os_async_write 0 True (wld started_loop)"

definition second_locked_write :: "awaitable result \<times> world" where
  "second_locked_write = os_async_write 1 True (snd first_locked_write)"

definition second_driven :: "outcome \<times> loop" where
  "second_driven =
     step (awaited (fst second_locked_write)) (started_loop\<lparr>wld := snd second_locked_write\<rparr>)"

definition first_driven :: "outcome \<times> loop" where
  "first_driven = step (awaited (fst first_locked_write)) (snd second_driven)"

text \<open>
  Users of the lock, in any interleaving: \<open>OpAcquire\<close> is a caller that starts
  \<^verbatim>\<open>await write_lock.acquire()\<close>, \<open>OpRelease\<close> is a call of \<^verbatim>\<open>write_lock.release()\<close>,
  and \<open>OpWakeup\<close> resumes a suspended caller whose future is done, as its task's wakeup
  does. The simulation keeps the suspended callers in the order in which they were
  suspended and records what happens: \<open>EvQueued f\<close> when a caller is suspended on the
  waiter future \<open>f\<close>, \<open>EvGranted f\<close> when a release resolves the waiter future \<open>f\<close>,
  \<open>EvEntered f\<close> when that caller is resumed and holds the lock, \<open>EvAcquired\<close> when a
  caller gets the free lock without waiting.
\<close>

datatype lock_op = OpAcquire | OpRelease | OpWakeup

datatype lock_event =
    EvAcquired
  | EvQueued fut_id
  | EvGranted fut_id
  | EvEntered fut_id
  | EvError exn

record lock_sim =
  sim_loop :: loop
  suspended :: "(fut_id \<times> (resume \<Rightarrow> coro)) list"
  events :: "lock_event list"

text \<open>The waiters that a release has taken from pending to done.\<close>

definition newly_granted :: "world \<Rightarrow> world \<Rightarrow> fut_id list" where
  "newly_granted w w' = filter (\<lambda>f. \<not> is_done w f \<and> is_done w' f) (waiters (write_lock w))"

fun lock_sim_step :: "lock_sim \<Rightarrow> lock_op \<Rightarrow> lock_sim" where
  "lock_sim_step s OpAcquire =
     (case step Lock_acquire (sim_loop s) of
        (Suspended (Some f) k, l') \<Rightarrow>
          s\<lparr>sim_loop := l', suspended := suspended s @ [(f, k)], events := events s @ [EvQueued f]\<rparr>
      | (Suspended None k, l') \<Rightarrow> s\<lparr>sim_loop := l'\<rparr>
      | (Completed v, l') \<Rightarrow> s\<lparr>sim_loop := l', events := events s @ [EvAcquired]\<rparr>
      | (Raised e, l') \<Rightarrow> s\<lparr>sim_loop := l', events := events s @ [EvError e]\<rparr>)"
| "lock_sim_step s OpRelease =
     (case Lock_release (wld (sim_loop s)) of
        (Inl e, w') \<Rightarrow>
          s\<lparr>sim_loop := (sim_loop s)\<lparr>wld := w'\<rparr>, events := events s @ [EvError e]\<rparr>
      | (Inr _, w') \<Rightarrow>
          s\<lparr>sim_loop := (sim_loop s)\<lparr>wld := w'\<rparr>,
            events := events s @ map EvGranted (newly_granted (wld (sim_loop s)) w')\<rparr>)"
| "lock_sim_step s OpWakeup =
     (case filter (\<lambda>(f, k). is_done (wld (sim_loop s)) f) (suspended s) of
        [] \<Rightarrow> s
      | (f, k) # _ \<Rightarrow>
          (case step (k (wakeup_resume (wld (sim_loop s)) f)) (sim_loop s) of
             (r, l') \<Rightarrow>
               s\<lparr>sim_loop := l', suspended := filter (\<lambda>(g, _). g \<noteq> f) (suspended s),
                 events := events s @ [EvEntered f]\<rparr>))"

definition lock_sim_start :: "loop \<Rightarrow> lock_sim" where
  "lock_sim_start l = \<lparr>sim_loop = l, suspended = [], events = []\<rparr>"

definition lock_sim_run :: "loop \<Rightarrow> lock_op list \<Rightarrow> lock_sim" where
  "lock_sim_run l ops = foldl lock_sim_step (lock_sim_start l) ops"

fun queued :: "lock_event list \<Rightarrow> fut_id list" where
  "queued [] = []"
| "queued (EvQueued f # evs) = f # queued evs"
| "queued (_ # evs) = queued evs"

fun granted :: "lock_event list \<Rightarrow> fut_id list" where
  "granted [] = []"
| "granted (EvGranted f # evs) = f # granted evs"
| "granted (_ # evs) = granted evs"

fun entered :: "lock_event list \<Rightarrow> fut_id list" where
  "entered [] = []"
| "entered (EvEntered f # evs) = f # entered evs"
| "entered (_ # evs) = entered evs"

text \<open>
  The waiters in the granted state: their future is done, and they are still in the
  lock's queue because they have not been resumed yet.
\<close>

definition granted_waiters :: "world \<Rightarrow> fut_id list" where
  "granted_waiters w = filter (is_done w) (waiters (write_lock w))"

text \<open>
  The code of \<^verbatim>\<open>acquire\<close> after its \<^verbatim>\<open>await fut\<close>, and the invariant of the simulation.
\<close>

definition acquire_cont :: "fut_id \<Rightarrow> resume \<Rightarrow> coro" where
  "acquire_cont fut r =
     bind
       (try_finally (case r of Send \<Rightarrow> Future_result fut | Throw e \<Rightarrow> Raise e)
          (Sync (\<lambda>w. (Return VNone,
             set_lock ((write_lock w)\<lparr>waiters := remove1 fut (waiters (write_lock w))\<rparr>) w))))
       (\<lambda>_. Sync (\<lambda>w. (Return (VBool True), set_lock ((write_lock w)\<lparr>locked := True\<rparr>) w)))"

definition lock_inv :: "lock_sim \<Rightarrow> bool" where
  "lock_inv s =
     (let w = wld (sim_loop s); ws = waiters (write_lock w) in
      map fst (suspended s) = ws \<and> distinct ws \<and>
      (\<forall>f \<in> set ws. f < length (futures w)) \<and>
      (\<forall>(f, k) \<in> set (suspended s). k = acquire_cont f) \<and>
      (\<forall>f \<in> set ws. fut_state w f = Pending \<or> fut_state w f = Resolved (VBool True)) \<and>
      (\<forall>f \<in> set (if locked (write_lock w) then ws else tl ws). fut_state w f = Pending) \<and>
      queued (events s) = entered (events s) @ ws \<and>
      granted (events s) = entered (events s) @ granted_waiters w \<and>
      distinct (entered (events s) @ ws) \<and>
      (\<forall>f \<in> set (entered (events s)). f < length (futures w)))"

text \<open>
  A state of the simulation in which nobody is between grant and resumption: no waiter
  is in the granted state, and the lock is held unless its queue is empty.
\<close>

definition lock_settled :: "lock_sim \<Rightarrow> bool" where
  "lock_settled s =
     (lock_inv s \<and> granted_waiters (wld (sim_loop s)) = [] \<and>
      (locked (write_lock (wld (sim_loop s))) \<or> waiters (write_lock (wld (sim_loop s))) = []))"

subsection \<open>Locked writes, requested in one order and driven in another\<close>

text \<open>
  \<open>call_writes cs\<close> requests the locked writes \<open>cs\<close> by calls of
  \<^verbatim>\<open>os_async_write(i, lock=True)\<close>, in the order of the list, and keeps what every call
  returns. \<open>drive_writes ds rs\<close> then hands the awaitables of the writes \<open>ds\<close>, in the
  order of that list, to \<^verbatim>\<open>asyncio.create_task\<close> (the notebook drives its locked writes
  by tasks in \<^verbatim>\<open>example5_taskgroup_create_task_outside_loop_with_lock\<close>) and returns
  every write with its task: the tasks take their first step, which is the first time
  the awaitable is driven, in the order \<open>ds\<close>. A write that was not requested, or whose
  call raised, has no awaitable and gets no task. \<open>run_loop n\<close> is \<open>n\<close> iterations of the
  event loop.
\<close>

fun call_writes :: "nat list \<Rightarrow> world \<Rightarrow> (nat \<times> awaitable result) list \<times> world" where
  "call_writes [] w = ([], w)"
| "call_writes (i # cs) w =
     (case os_async_write i True w of (r, w') \<Rightarrow>
      (case call_writes cs w' of (rs, w'') \<Rightarrow> ((i, r) # rs, w'')))"

fun drive_writes ::
  "nat list \<Rightarrow> (nat \<times> awaitable result) list \<Rightarrow> loop \<Rightarrow> (nat \<times> fut_id) list \<times> loop" where
  "drive_writes [] rs l = ([], l)"
| "drive_writes (d # ds) rs l =
     (case map_of rs d of
        Some (Inr a) \<Rightarrow>
          (case create_task (await a) l of (t, l') \<Rightarrow>
           (case drive_writes ds rs l' of (ts, l'') \<Rightarrow> ((d, t) # ts, l'')))
      | _ \<Rightarrow> drive_writes ds rs l)"

definition locked_writes :: "nat list \<Rightarrow> nat list \<Rightarrow> loop \<Rightarrow> (nat \<times> fut_id) list \<times> loop" where
  "locked_writes cs ds l =
     drive_writes ds (fst (call_writes cs (wld l))) (l\<lparr>wld := snd (call_writes cs (wld l))\<rparr>)"

primrec run_loop :: "nat \<Rightarrow> loop \<Rightarrow> loop" where
  "run_loop 0 l = l"
| "run_loop (Suc n) l = run_once (run_loop n l)"

text \<open>
  What is observed of the writes \<open>ts\<close> (every write with its task):
  \<^item> \<open>waiting_write ts w f\<close>: the writes whose task is suspended on the future \<open>f\<close> (its
    wakeup is registered on \<open>f\<close>);
  \<^item> \<open>lock_queue ts w\<close>: the writes that wait in the queue of the lock, in the order of
    the queue;
  \<^item> \<open>grants n ts l\<close>: the writes that a release has granted the lock during the first \<open>n\<close>
    iterations of the loop (the release has resolved the waiter future they were
    suspended on), in the order of the grants;
  \<^item> \<open>completions n ts l\<close>: the writes whose task has finished during the first \<open>n\<close>
    iterations of the loop, in the order in which they finished.
\<close>

definition waiting_write :: "(nat \<times> fut_id) list \<Rightarrow> world \<Rightarrow> fut_id \<Rightarrow> nat list" where
  "waiting_write ts w f =
     map fst (filter (\<lambda>(d, t). TaskWakeup t f \<in> set (callbacks (get_future w f))) ts)"

definition lock_queue :: "(nat \<times> fut_id) list \<Rightarrow> world \<Rightarrow> nat list" where
  "lock_queue ts w = concat (map (waiting_write ts w) (waiters (write_lock w)))"

primrec grants :: "nat \<Rightarrow> (nat \<times> fut_id) list \<Rightarrow> loop \<Rightarrow> nat list" where
  "grants 0 ts l = []"
| "grants (Suc n) ts l =
     grants n ts l @
     concat (map (waiting_write ts (wld (run_loop n l)))
       (newly_granted (wld (run_loop n l)) (wld (run_loop (Suc n) l))))"

primrec completions :: "nat \<Rightarrow> (nat \<times> fut_id) list \<Rightarrow> loop \<Rightarrow> nat list" where
  "completions 0 ts l = []"
| "completions (Suc n) ts l =
     completions n ts l @
     map fst (filter (\<lambda>(d, t). \<not> is_done (wld (run_loop n l)) t \<and> is_done (wld (run_loop (Suc n) l)) t) ts)"

subsection \<open>The states of the loop while it runs locked writes\<close>

text \<open>
  The code of a locked write at its two suspension points: \<open>sleep_cont f\<close> is what is
  left of \<open>wait_for_write_locked\<close> when it is suspended in \<^verbatim>\<open>await async_sleep(WRITE_TIME)\<close>
  on the sleep future \<open>f\<close> (it holds the lock), and \<open>waiter_cont f\<close> what is left when it
  is suspended inside \<^verbatim>\<open>await lock_awaitable\<close> on the waiter future \<open>f\<close>.
\<close>

definition write_body :: coro where
  "write_body =
     try_finally
       (call (async_sleep WRITE_TIME) (\<lambda>fut. bind (await (Fut fut)) (\<lambda>_. Return VNone)))
       (call Lock_release (\<lambda>_. Return VNone))"

definition sleep_cont :: "fut_id \<Rightarrow> resume \<Rightarrow> coro" where
  "sleep_cont f r =
     try_finally
       (bind (case r of Send \<Rightarrow> Future_result f | Throw e \<Rightarrow> Raise e) (\<lambda>_. Return VNone))
       (call Lock_release (\<lambda>_. Return VNone))"

definition waiter_cont :: "fut_id \<Rightarrow> resume \<Rightarrow> coro" where
  "waiter_cont f r = bind (acquire_cont f r) (\<lambda>_. write_body)"

text \<open>
  The states of the loop while it runs \<open>m\<close> locked writes whose tasks are the futures
  \<open>n, \<dots>, n + m - 1\<close>, in the order of their first step. The waiter future of the
  \<open>i\<close>-th task (\<open>0 < i\<close>) is \<open>n + m + i\<close>.
  \<^item> \<open>writes_rest n m j u l\<close>: the tasks before the \<open>j\<close>-th are done and the others are
    pending; the tasks \<open>i\<close> with \<open>j < i < u\<close> are suspended on their waiter futures.
  \<^item> \<open>writes_stepping n m u l\<close>: during the first iteration, when the first \<open>u\<close> tasks
    have taken their first step.
  \<^item> \<open>writes_holding n m j sf l\<close>: the \<open>j\<close>-th task holds the lock and is suspended on
    its sleep future \<open>sf\<close>, whose timer is pending.
  \<^item> \<open>writes_fired n m j sf l\<close>: the timer has fired, the wakeup of the \<open>j\<close>-th task is
    on the ready queue.
  \<^item> \<open>writes_granted n m j l\<close>: the tasks before the \<open>j\<close>-th are done and the lock is
    released; if there is a \<open>j\<close>-th task, its waiter future is resolved and its wakeup
    is on the ready queue.
  \<^item> \<open>writes_state n m k l\<close>: the state after \<open>k\<close> iterations (\<open>0 < k\<close>).
\<close>

definition writes_rest :: "nat \<Rightarrow> nat \<Rightarrow> nat \<Rightarrow> nat \<Rightarrow> loop \<Rightarrow> bool" where
  "writes_rest n m j u l =
     ((\<forall>i. j < i \<and> i < u \<longrightarrow>
         futures (wld l) ! (n + m + i)
           = \<lparr>state = Pending, callbacks = [TaskWakeup (n + i) (n + m + i)]\<rparr>
         \<and> tasks l (n + i) = Some (waiter_cont (n + m + i))) \<and>
      (\<forall>i. j \<le> i \<and> i < m \<longrightarrow> futures (wld l) ! (n + i) = \<lparr>state = Pending, callbacks = []\<rparr>) \<and>
      (\<forall>i. i < j \<longrightarrow> state (futures (wld l) ! (n + i)) \<noteq> Pending))"

definition writes_stepping :: "nat \<Rightarrow> nat \<Rightarrow> nat \<Rightarrow> loop \<Rightarrow> bool" where
  "writes_stepping n m u l =
     (0 < u \<and> u \<le> m \<and> length (futures (wld l)) = n + m + u \<and>
      ready (wld l) = [] \<and>
      timers (wld l) = [(now (wld l) + WRITE_TIME, SetResult (n + m) VNone)] \<and>
      write_lock (wld l) = \<lparr>locked = True, waiters = map (\<lambda>i. n + m + i) [1..<u]\<rparr> \<and>
      futures (wld l) ! (n + m) = \<lparr>state = Pending, callbacks = [TaskWakeup n (n + m)]\<rparr> \<and>
      tasks l n = Some (sleep_cont (n + m)) \<and>
      (\<forall>i. u \<le> i \<and> i < m \<longrightarrow>
         tasks l (n + i) = Some (start (wait_for_write_locked True (Coro Lock_acquire)))) \<and>
      writes_rest n m 0 u l)"

definition writes_holding :: "nat \<Rightarrow> nat \<Rightarrow> nat \<Rightarrow> fut_id \<Rightarrow> loop \<Rightarrow> bool" where
  "writes_holding n m j sf l =
     (j < m \<and> n + 2 * m \<le> length (futures (wld l)) \<and> sf < length (futures (wld l)) \<and>
      (sf = n + m + j \<or> n + 2 * m \<le> sf) \<and>
      ready (wld l) = [] \<and>
      map snd (timers (wld l)) = [SetResult sf VNone] \<and>
      write_lock (wld l) = \<lparr>locked = True, waiters = map (\<lambda>i. n + m + i) [Suc j..<m]\<rparr> \<and>
      futures (wld l) ! sf = \<lparr>state = Pending, callbacks = [TaskWakeup (n + j) sf]\<rparr> \<and>
      tasks l (n + j) = Some (sleep_cont sf) \<and>
      writes_rest n m j m l)"

definition writes_fired :: "nat \<Rightarrow> nat \<Rightarrow> nat \<Rightarrow> fut_id \<Rightarrow> loop \<Rightarrow> bool" where
  "writes_fired n m j sf l =
     (j < m \<and> n + 2 * m \<le> length (futures (wld l)) \<and> sf < length (futures (wld l)) \<and>
      (sf = n + m + j \<or> n + 2 * m \<le> sf) \<and>
      ready (wld l) = [TaskWakeup (n + j) sf] \<and>
      timers (wld l) = [] \<and>
      write_lock (wld l) = \<lparr>locked = True, waiters = map (\<lambda>i. n + m + i) [Suc j..<m]\<rparr> \<and>
      futures (wld l) ! sf = \<lparr>state = Resolved VNone, callbacks = []\<rparr> \<and>
      tasks l (n + j) = Some (sleep_cont sf) \<and>
      writes_rest n m j m l)"

definition writes_granted :: "nat \<Rightarrow> nat \<Rightarrow> nat \<Rightarrow> loop \<Rightarrow> bool" where
  "writes_granted n m j l =
     (0 < j \<and> j \<le> m \<and> n + 2 * m \<le> length (futures (wld l)) \<and>
      ready (wld l) = (if j < m then [TaskWakeup (n + j) (n + m + j)] else []) \<and>
      timers (wld l) = [] \<and>
      write_lock (wld l) = \<lparr>locked = False, waiters = map (\<lambda>i. n + m + i) [j..<m]\<rparr> \<and>
      (j < m \<longrightarrow>
         futures (wld l) ! (n + m + j) = \<lparr>state = Resolved (VBool True), callbacks = []\<rparr>
         \<and> tasks l (n + j) = Some (waiter_cont (n + m + j))) \<and>
      writes_rest n m j m l)"

definition writes_state :: "nat \<Rightarrow> nat \<Rightarrow> nat \<Rightarrow> loop \<Rightarrow> bool" where
  "writes_state n m k l =
     (if m \<le> k div 3 then writes_granted n m m l
      else if k mod 3 = 0 then writes_granted n m (k div 3) l
      else if k mod 3 = 1 then (\<exists>sf. writes_holding n m (k div 3) sf l)
      else (\<exists>sf. writes_fired n m (k div 3) sf l))"

text \<open>\<open>writes_driven n m l\<close>: the tasks are created and none has taken its first step.\<close>

definition writes_driven :: "nat \<Rightarrow> nat \<Rightarrow> loop \<Rightarrow> bool" where
  "writes_driven n m l =
     (length (futures (wld l)) = n + m \<and>
      ready (wld l) = map TaskStep [n..<n + m] \<and>
      timers (wld l) = [] \<and>
      write_lock (wld l) = \<lparr>locked = False, waiters = []\<rparr> \<and>
      (\<forall>i. i < m \<longrightarrow>
         futures (wld l) ! (n + i) = \<lparr>state = Pending, callbacks = []\<rparr>
         \<and> tasks l (n + i) = Some (start (wait_for_write_locked True (Coro Lock_acquire)))))"
section \<open>Basic facts about steps\<close>

lemma step_Sync: "step (Sync f) l = step (fst (f (wld l))) (l\<lparr>wld := snd (f (wld l))\<rparr>)"
  by (simp add: map_prod_def split: prod.splits)

lemma step_call:
  "step (call f K) l =
     (case f (wld l) of
        (Inl e, w') \<Rightarrow> (Raised e, l\<lparr>wld := w'\<rparr>)
      | (Inr a, w') \<Rightarrow> step (K a) (l\<lparr>wld := w'\<rparr>))"
  by (simp add: call_def step_Sync split: prod.splits sum.splits del: step.simps(4))

text \<open>
  \<open>step_inline c K\<close>, run as code of a caller, is one step of \<open>c\<close> followed by the
  caller's code \<open>K\<close>.
\<close>

lemma step_step_inline:
  "step (step_inline c K) l = (case step c l of (r, l') \<Rightarrow> step (K r) l')"
proof (induction c arbitrary: l)
  case (Sync f)
  have "fst (f (wld l)) \<in> Basic_BNFs.fsts (f (wld l))"
    by (cases "f (wld l)") (simp add: fsts.simps)
  then show ?case
    using Sync.IH[of "f (wld l)" "fst (f (wld l))"]
    by (simp add: step_Sync del: step.simps)
next
  case (Spawn c k)
  then show ?case by (simp split: prod.splits)
qed simp_all

text \<open>
  A call of the adapter from coroutine code is \<open>coroutine_with_js_like_await\<close> followed
  by the caller's code on the handle; an exception of the adapter leaves the caller.
\<close>

lemma step_call_js_like:
  "step (call_js_like c K) l =
     (case coroutine_with_js_like_await c l of
        (Inl e, l') \<Rightarrow> (Raised e, l')
      | (Inr h, l') \<Rightarrow> step (K h) l')"
  by (simp add: call_js_like_def coroutine_with_js_like_await_def step_step_inline step_Sync
        split: prod.splits outcome.splits sum.splits del: step.simps(4))

lemma fresh_future_pending:
  "fut_state (snd (create_future w)) (length (futures w)) = Pending"
  by (simp add: create_future_def fut_state_def get_future_def)

lemma set_result_fresh:
  "set_result (length (futures w)) v (snd (create_future w)) =
     (Inr (), w\<lparr>futures := futures w @ [\<lparr>state = Resolved v, callbacks = []\<rparr>]\<rparr>)"
  by (simp add: set_result_def settle_def create_future_def fut_state_def get_future_def
        schedule_callbacks_def put_future_def)

lemma js_like_completed:
  assumes "step c l = (Completed v, l1)"
  shows "coroutine_with_js_like_await c l =
     (Inr (Fut (length (futures (wld l1)))),
      l1\<lparr>wld := (wld l1)\<lparr>futures := futures (wld l1) @ [\<lparr>state = Resolved v, callbacks = []\<rparr>]\<rparr>\<rparr>)"
  using assms set_result_fresh[of "wld l1" v]
  by (simp add: coroutine_with_js_like_await_def create_future_def)

lemma js_like_suspended:
  assumes "step c l = (Suspended y k, l1)"
  shows "coroutine_with_js_like_await c l = (Inr (JSLikeCoroutine y k), l1)"
  using assms by (simp add: coroutine_with_js_like_await_def)

lemma js_like_raised:
  assumes "step c l = (Raised e, l1)"
  shows "coroutine_with_js_like_await c l = (Inl e, l1)"
  using assms by (simp add: coroutine_with_js_like_await_def)

lemma step_await_resolved:
  assumes "fut_state (wld l) f = Resolved v"
  shows "step (await (Fut f)) l = (Completed v, l)"
  using assms
  by (simp add: Future_await_def Future_result_def is_done_def step_Sync del: step.simps(4))

section \<open>The eager adapter runs the first segment at call time\<close>

text \<open>
  Claim C1. For every coroutine \<open>c\<close> and every state \<open>l\<close>, when
  \<open>coroutine_with_js_like_await\<close> returns (or raises), the code of \<open>c\<close> up to its first
  suspension point (or to its end) has run: the state in which the call leaves the world
  carries exactly the side effects of the first step of \<open>c\<close>. The clock, the printed
  lines, the timers, the lock and the table of tasks are those after \<open>step c l\<close>; the
  ready queue is the one the first step left, nothing has been taken from it, so no
  iteration of the loop has run; every future that exists after the first step is
  unchanged (the adapter may add one new future, the handle of a computation that has
  already returned). When the adapter is called from the code of a coroutine, as the
  notebook does, the caller's next statements (\<open>K\<close>) run in that state, on the handle
  the adapter returned, within the same synchronous step.
\<close>

theorem js_like_await_runs_first_segment_at_call:
  "effects (snd (coroutine_with_js_like_await c l)) = effects (snd (step c l))
   \<and> tasks (snd (coroutine_with_js_like_await c l)) = tasks (snd (step c l))
   \<and> take (length (futures (wld (snd (step c l)))))
          (futures (wld (snd (coroutine_with_js_like_await c l))))
       = futures (wld (snd (step c l)))
   \<and> step (call_js_like c K) l =
       (case coroutine_with_js_like_await c l of
          (Inl e, l') \<Rightarrow> (Raised e, l')
        | (Inr h, l') \<Rightarrow> step (K h) l')"
proof -
  have a: "effects (snd (coroutine_with_js_like_await c l)) = effects (snd (step c l))
   \<and> tasks (snd (coroutine_with_js_like_await c l)) = tasks (snd (step c l))
   \<and> take (length (futures (wld (snd (step c l)))))
          (futures (wld (snd (coroutine_with_js_like_await c l))))
       = futures (wld (snd (step c l)))"
  proof (cases "step c l")
    case (Pair r l1)
    show ?thesis
    proof (cases r)
      case (Suspended y k)
      then show ?thesis using Pair by (simp add: js_like_suspended)
    next
      case (Completed v)
      then show ?thesis using Pair by (simp add: js_like_completed effects_def)
    next
      case (Raised e)
      then show ?thesis using Pair by (simp add: js_like_raised)
    qed
  qed
  show ?thesis
    using a step_call_js_like[of c K l] by (simp only: simp_thms)
qed

text \<open>
  The marker test of C1 on the notebook's own computation: right after
  \<^verbatim>\<open>fixed_write_output_async(0)\<close> returns, both lines of the first segment of
  \<^verbatim>\<open>write_output_async(0)\<close> are printed and the write's timer is registered, while the
  ready queue is empty and no iteration of the loop has run.
\<close>

lemma fixed_write_output_async_marker:
  "printed (wld (snd (coroutine_with_js_like_await (write_output_async 0 False) started_loop)))
     = [(0, ''Starting''), (0, ''[O0] >> Tell OS to write output 0''),
        (0, ''[W0] >>> OS started writing 0'')]
   \<and> timers (wld (snd (coroutine_with_js_like_await (write_output_async 0 False) started_loop)))
     = [(1, SetResult 0 VNone)]
   \<and> ready (wld (snd (coroutine_with_js_like_await (write_output_async 0 False) started_loop)))
     = []"
  by code_simp

section \<open>A computation that ends before its first suspension point\<close>

text \<open>
  Claim C5, counterexample. \<open>fails_at_once\<close> prints its marker and raises before any
  suspension point. The adapter does not return a handle for it: its result is an
  exception (\<open>Inl\<close>) that reaches the caller of \<open>coroutine_with_js_like_await\<close>, and no
  future has been created that could hold the failure.
\<close>

theorem js_like_await_failure_handle_counterexample:
  "observe (fst (step fails_at_once started_loop)) = Inr (Inl (Exception ''boom''))
   \<and> isl (fst (coroutine_with_js_like_await fails_at_once started_loop))
   \<and> projl (fst (coroutine_with_js_like_await fails_at_once started_loop)) = Exception ''boom''
   \<and> futures (wld (snd (coroutine_with_js_like_await fails_at_once started_loop))) = []
   \<and> printed (wld (snd (coroutine_with_js_like_await fails_at_once started_loop)))
       = [(0, ''Starting''), (0, ''marker'')]"
  by code_simp

text \<open>
  Claim C5, amended. For every coroutine that returns before it reaches a suspension
  point, the adapter returns a handle that is already settled: a new future resolved
  with the return value, and awaiting it yields that value without suspending. For every
  coroutine that fails before it reaches a suspension point, the adapter returns no
  handle: the failure propagates synchronously to the caller, in the state that the
  coroutine left.
\<close>

theorem js_like_await_before_suspension:
  "(step c l = (Completed v, l1) \<longrightarrow>
      (\<exists>f l2. coroutine_with_js_like_await c l = (Inr (Fut f), l2)
         \<and> fut_state (wld l2) f = Resolved v
         \<and> step (await (Fut f)) l2 = (Completed v, l2)))
   \<and> (step c l = (Raised e, l1) \<longrightarrow> coroutine_with_js_like_await c l = (Inl e, l1))"
proof (intro conjI impI)
  assume st: "step c l = (Completed v, l1)"
  define f where "f = length (futures (wld l1))"
  define l2 where
    "l2 = l1\<lparr>wld := (wld l1)\<lparr>futures := futures (wld l1) @ [\<lparr>state = Resolved v, callbacks = []\<rparr>]\<rparr>\<rparr>"
  have a: "coroutine_with_js_like_await c l = (Inr (Fut f), l2)"
    using js_like_completed[OF st] by (simp add: f_def l2_def)
  have b: "fut_state (wld l2) f = Resolved v"
    by (simp add: l2_def f_def fut_state_def get_future_def)
  have c: "step (await (Fut f)) l2 = (Completed v, l2)"
    by (rule step_await_resolved[OF b])
  show "\<exists>f l2. coroutine_with_js_like_await c l = (Inr (Fut f), l2)
         \<and> fut_state (wld l2) f = Resolved v
         \<and> step (await (Fut f)) l2 = (Completed v, l2)"
    using a b c by blast
next
  assume "step c l = (Raised e, l1)"
  then show "coroutine_with_js_like_await c l = (Inl e, l1)"
    by (rule js_like_raised)
qed

theorem js_like_await_before_suspension_witness:
  "step (Return (VStr ''done'')) started_loop = (Completed (VStr ''done''), started_loop)
   \<and> (\<exists>f l2. coroutine_with_js_like_await (Return (VStr ''done'')) started_loop = (Inr (Fut f), l2)
         \<and> fut_state (wld l2) f = Resolved (VStr ''done'')
         \<and> step (await (Fut f)) l2 = (Completed (VStr ''done''), l2))
   \<and> step (Raise (Exception ''boom'')) started_loop = (Raised (Exception ''boom''), started_loop)
   \<and> coroutine_with_js_like_await (Raise (Exception ''boom'')) started_loop
       = (Inl (Exception ''boom''), started_loop)"
proof -
  have h1: "step (Return (VStr ''done'')) started_loop = (Completed (VStr ''done''), started_loop)"
    by simp
  have h2: "step (Raise (Exception ''boom'')) started_loop = (Raised (Exception ''boom''), started_loop)"
    by simp
  show ?thesis
    using h1 h2
      js_like_await_before_suspension[of "Return (VStr ''done'')" started_loop "VStr ''done''"
        started_loop "Exception ''boom''"]
      js_like_await_before_suspension[of "Raise (Exception ''boom'')" started_loop "VStr ''done''"
        started_loop "Exception ''boom''"]
    by simp
qed

section \<open>Awaiting the handle of the eager adapter\<close>

lemma step_JSLikeCoroutine_loop:
  "step (JSLikeCoroutine_loop c) l =
     (case step c l of
        (Suspended y k, l') \<Rightarrow>
          (Suspended y (\<lambda>r. case r of Send \<Rightarrow> JSLikeCoroutine_loop (k Send) | Throw e \<Rightarrow> Raise e), l')
      | (Completed v, l') \<Rightarrow> (Completed v, l')
      | (Raised e, l') \<Rightarrow> (Raised e, l'))"
proof (induction c arbitrary: l)
  case (Sync f)
  have "fst (f (wld l)) \<in> Basic_BNFs.fsts (f (wld l))"
    by (cases "f (wld l)") (simp add: fsts.simps)
  then show ?case
    using Sync.IH[of "f (wld l)" "fst (f (wld l))"]
    by (simp add: step_Sync del: step.simps(4))
next
  case (Spawn c k)
  then show ?case by (simp split: prod.splits)
qed simp_all

text \<open>
  Under a driver that only sends, the loop of \<^verbatim>\<open>JSLikeCoroutine.__await__\<close> yields what
  the wrapped coroutine yields, changes the state as it does and ends as it does.
\<close>

lemma drive_JSLikeCoroutine_loop:
  "map_prod observe id (drive es (JSLikeCoroutine_loop c) l) = map_prod observe id (drive es c l)"
proof (induction es arbitrary: c l)
  case Nil
  show ?case by (simp add: step_JSLikeCoroutine_loop split: prod.splits outcome.splits)
next
  case (Cons e es)
  show ?case
    using Cons.IH
    by (simp add: step_JSLikeCoroutine_loop split: prod.splits outcome.splits)
qed

text \<open>
  Claim C6, counterexample. \<open>recovering fut\<close> awaits a future and handles its failure.
  Run as a task (lazily), it returns \<^verbatim>\<open>"recovered"\<close> when the future fails. Run through
  the eager adapter, the awaiter of the handle gets the exception of the future instead:
  the handle does not pass an exception that is thrown into it on to the wrapped
  coroutine. The two final results differ.
\<close>

theorem js_like_handle_same_result_counterexample:
  "main_result (run_main 10 failing_future_eager initial_world) = Some (Failed (Exception ''boom''))
   \<and> main_result (run_main 10 failing_future_lazy initial_world) = Some (Resolved (VStr ''recovered''))"
  by code_simp

text \<open>
  Claim C6, amended. For every coroutine \<open>c\<close> whose first step suspends (yielding \<open>y\<close>,
  with the code \<open>k\<close> left), the eager adapter returns the handle \<open>JSLikeCoroutine y k\<close>
  in the state the first step left. Awaiting the handle, in any later state \<open>l2\<close>, first
  yields \<open>y\<close> again without changing the state. As long as the awaiter is resumed by
  plain sends (no exception is thrown into it at a suspension point), the handle then
  drives the same coroutine on: it yields what \<open>k Send\<close> yields, changes the state as
  \<open>k Send\<close> does and ends with the value or the error of \<open>k Send\<close>, which is how the
  unadapted coroutine, driven lazily, continues after its first suspension. An exception
  thrown into the handle at its first suspension point is raised to the awaiter and the
  state is left as it is (the wrapped coroutine does not see it); the same holds at every
  later suspension point of the handle, where its code is \<open>JSLikeCoroutine_loop c'\<close> for
  the code \<open>c'\<close> that the wrapped coroutine has left.
\<close>

theorem js_like_handle_replays:
  assumes "step c l = (Suspended y k, l1)"
  shows "coroutine_with_js_like_await c l = (Inr (JSLikeCoroutine y k), l1)
       \<and> map_prod observe id (step (await (JSLikeCoroutine y k)) l2) = (Inl y, l2)
       \<and> map_prod observe id (drive (e # es) (await (JSLikeCoroutine y k)) l2)
           = map_prod observe id (drive es (k Send) (e l2))
       \<and> drive (e # es) c l = drive es (k Send) (e l1)
       \<and> (case step (await (JSLikeCoroutine y k)) l2 of
             (Suspended y' k', l') \<Rightarrow> step (k' (Throw x)) l3 = (Raised x, l3)
           | (Completed v, l') \<Rightarrow> False
           | (Raised x', l') \<Rightarrow> False)
       \<and> (case step (JSLikeCoroutine_loop c') l4 of
             (Suspended y' k', l') \<Rightarrow> step (k' (Throw x)) l3 = (Raised x, l3)
           | (Completed v, l') \<Rightarrow> True
           | (Raised x', l') \<Rightarrow> True)"
proof -
  have later: "(case step (JSLikeCoroutine_loop c') l4 of
             (Suspended y' k', l') \<Rightarrow> step (k' (Throw x)) l3 = (Raised x, l3)
           | (Completed v, l') \<Rightarrow> True
           | (Raised x', l') \<Rightarrow> True)"
    by (simp add: step_JSLikeCoroutine_loop split: prod.splits outcome.splits)
  show ?thesis
    using assms later
    by (simp add: js_like_suspended JSLikeCoroutine_await_def drive_JSLikeCoroutine_loop)
qed

theorem js_like_handle_replays_witness:
  "step (await (Fut 0)) pending_loop
     = (Suspended (Some 0) (\<lambda>r. case r of Send \<Rightarrow> Future_result 0 | Throw e \<Rightarrow> Raise e), pending_loop)
   \<and> map_prod observe id
        (drive [resolve_first]
           (await (JSLikeCoroutine (Some 0) (\<lambda>r. case r of Send \<Rightarrow> Future_result 0 | Throw e \<Rightarrow> Raise e)))
           pending_loop)
       = (Inr (Inr VNone), resolve_first pending_loop)
   \<and> map_prod observe id (drive [resolve_first] (await (Fut 0)) pending_loop)
       = (Inr (Inr VNone), resolve_first pending_loop)"
proof -
  have h: "step (await (Fut 0)) pending_loop
     = (Suspended (Some 0) (\<lambda>r. case r of Send \<Rightarrow> Future_result 0 | Throw e \<Rightarrow> Raise e), pending_loop)"
    by (simp add: Future_await_def step_Sync is_done_def fut_state_def get_future_def
          pending_loop_def create_future_def started_loop_def log_def initial_world_def
          del: step.simps(4))
  have r: "fut_state (wld (resolve_first pending_loop)) 0 = Resolved VNone"
    by (simp add: resolve_first_def pending_loop_def started_loop_def log_def initial_world_def
          create_future_def set_result_def settle_def fut_state_def get_future_def
          schedule_callbacks_def put_future_def)
  have d: "drive [] (Future_result 0) (resolve_first pending_loop)
     = (Completed VNone, resolve_first pending_loop)"
    using r by (simp add: Future_result_def step_Sync del: step.simps(4))
  show ?thesis
    using h d js_like_handle_replays[OF h, of pending_loop resolve_first "[]"]
    by simp
qed

section \<open>Submitting a task\<close>

lemma create_task_eq:
  "create_task c l =
     (length (futures (wld l)),
      l\<lparr>wld := (wld l)\<lparr>futures := futures (wld l) @ [\<lparr>state = Pending, callbacks = []\<rparr>],
                       ready := ready (wld l) @ [TaskStep (length (futures (wld l)))]\<rparr>,
        tasks := (tasks l)(length (futures (wld l)) \<mapsto> start c)\<rparr>)"
  by (simp add: create_task_def create_future_def call_soon_def)

lemma settle_keeps:
  "now (snd (settle f s w)) = now w"
  "logstart (snd (settle f s w)) = logstart w"
  "printed (snd (settle f s w)) = printed w"
  "timers (snd (settle f s w)) = timers w"
  "write_lock (snd (settle f s w)) = write_lock w"
  by (simp_all add: settle_def schedule_callbacks_def put_future_def Let_def)

lemma add_done_callback_keeps:
  "now (add_done_callback f cb w) = now w"
  "logstart (add_done_callback f cb w) = logstart w"
  "printed (add_done_callback f cb w) = printed w"
  "timers (add_done_callback f cb w) = timers w"
  "write_lock (add_done_callback f cb w) = write_lock w"
  by (simp_all add: add_done_callback_def call_soon_def put_future_def)

lemma task_step_started:
  assumes "tasks l1 t = Some (start c)"
  shows "task_step t Send l1 =
     (case step c l1 of
        (Completed v, l') \<Rightarrow>
          l'\<lparr>wld := snd (set_result t v (wld l')), tasks := (tasks l')(t := None)\<rparr>
      | (Raised e, l') \<Rightarrow>
          l'\<lparr>wld := snd (set_exception t e (wld l')), tasks := (tasks l')(t := None)\<rparr>
      | (Suspended (Some f) k, l') \<Rightarrow>
          l'\<lparr>wld := add_done_callback f (TaskWakeup t f) (wld l'), tasks := (tasks l')(t \<mapsto> k)\<rparr>
      | (Suspended None k, l') \<Rightarrow>
          l'\<lparr>wld := call_soon (TaskStep t) (wld l'), tasks := (tasks l')(t \<mapsto> k)\<rparr>)"
  using assms by (simp add: task_step_def start_def)

lemma tasks_create_task:
  "tasks (snd (create_task c l)) (fst (create_task c l)) = Some (start c)"
  by (simp add: create_task_eq)

text \<open>
  Claim C2. For every coroutine \<open>c\<close> submitted as a task with \<open>create_task\<close>, nothing of
  the code of \<open>c\<close> has run when \<open>create_task\<close> returns: the clock, \<^verbatim>\<open>logstart\<close>, the
  printed lines, the timers and the lock are those of the state before, and the only
  changes are the task's own pending future and the entry \<open>TaskStep\<close> at the end of the
  ready queue. The submitting coroutine goes on with its own code (\<open>K\<close>) in that state,
  up to its next suspension point. The side effects of the first segment of \<open>c\<close> appear when the scheduler
  runs that entry: the state after \<open>run_callback (TaskStep t)\<close> shows the clock, the
  printed lines, the timers and the lock that the first step of \<open>c\<close> leaves. With the
  eager adapter the same side effects are there when the adapter returns (C1), so the
  task defers them.
\<close>

theorem create_task_defers_first_segment:
  "now (wld (snd (create_task c l))) = now (wld l)
   \<and> logstart (wld (snd (create_task c l))) = logstart (wld l)
   \<and> printed (wld (snd (create_task c l))) = printed (wld l)
   \<and> timers (wld (snd (create_task c l))) = timers (wld l)
   \<and> write_lock (wld (snd (create_task c l))) = write_lock (wld l)
   \<and> futures (wld (snd (create_task c l))) = futures (wld l) @ [\<lparr>state = Pending, callbacks = []\<rparr>]
   \<and> ready (wld (snd (create_task c l))) = ready (wld l) @ [TaskStep (fst (create_task c l))]
   \<and> step (Spawn c K) l = step (K (fst (create_task c l))) (snd (create_task c l))
   \<and> now (wld (run_callback (TaskStep (fst (create_task c l))) (snd (create_task c l))))
       = now (wld (snd (step c (snd (create_task c l)))))
   \<and> printed (wld (run_callback (TaskStep (fst (create_task c l))) (snd (create_task c l))))
       = printed (wld (snd (step c (snd (create_task c l)))))
   \<and> timers (wld (run_callback (TaskStep (fst (create_task c l))) (snd (create_task c l))))
       = timers (wld (snd (step c (snd (create_task c l)))))
   \<and> write_lock (wld (run_callback (TaskStep (fst (create_task c l))) (snd (create_task c l))))
       = write_lock (wld (snd (step c (snd (create_task c l)))))"
proof -
  have a: "now (wld (snd (create_task c l))) = now (wld l)
   \<and> logstart (wld (snd (create_task c l))) = logstart (wld l)
   \<and> printed (wld (snd (create_task c l))) = printed (wld l)
   \<and> timers (wld (snd (create_task c l))) = timers (wld l)
   \<and> write_lock (wld (snd (create_task c l))) = write_lock (wld l)
   \<and> futures (wld (snd (create_task c l))) = futures (wld l) @ [\<lparr>state = Pending, callbacks = []\<rparr>]
   \<and> ready (wld (snd (create_task c l))) = ready (wld l) @ [TaskStep (fst (create_task c l))]
   \<and> step (Spawn c K) l = step (K (fst (create_task c l))) (snd (create_task c l))"
    by (simp add: create_task_eq)
  define t where "t = fst (create_task c l)"
  define l1 where "l1 = snd (create_task c l)"
  obtain r l' where st: "step c l1 = (r, l')"
    by (cases "step c l1")
  have tk: "tasks l1 t = Some (start c)"
    unfolding t_def l1_def by (rule tasks_create_task)
  have b: "now (wld (task_step t Send l1)) = now (wld l')
    \<and> printed (wld (task_step t Send l1)) = printed (wld l')
    \<and> timers (wld (task_step t Send l1)) = timers (wld l')
    \<and> write_lock (wld (task_step t Send l1)) = write_lock (wld l')"
    using st
    by (cases r)
       (auto simp add: task_step_started[OF tk] set_result_def set_exception_def
          settle_keeps add_done_callback_keeps call_soon_def split: option.splits)
  show ?thesis
    using a b st by (simp add: t_def l1_def)
qed

text \<open>
  The contrast of C2 on the notebook's own computation: after
  \<^verbatim>\<open>asyncio.create_task(write_output_async(0))\<close> nothing but \<^verbatim>\<open>Starting\<close> is printed and
  no timer exists; after \<^verbatim>\<open>fixed_write_output_async(0)\<close> both lines of the first segment
  are printed; the task prints them in the first iteration of the loop.
\<close>

lemma create_task_contrast:
  "printed (wld (snd (create_task (write_output_async 0 False) started_loop))) = [(0, ''Starting'')]
   \<and> printed (wld (snd (coroutine_with_js_like_await (write_output_async 0 False) started_loop)))
       = [(0, ''Starting''), (0, ''[O0] >> Tell OS to write output 0''),
          (0, ''[W0] >>> OS started writing 0'')]
   \<and> printed (wld (run_once (snd (create_task (write_output_async 0 False) started_loop))))
       = [(0, ''Starting''), (0, ''[O0] >> Tell OS to write output 0''),
          (0, ''[W0] >>> OS started writing 0'')]"
  by code_simp

text \<open>
  Claim C3, counterexample. One drive step of \<^verbatim>\<open>write_output_async(0)\<close> prints two
  lines and registers the timer of the write. After \<open>create_task\<close> has returned, neither
  has happened: the driver has not been stepped.
\<close>

theorem create_task_steps_once_counterexample:
  "printed (wld (snd (step (write_output_async 0 False) started_loop)))
     = [(0, ''Starting''), (0, ''[O0] >> Tell OS to write output 0''),
        (0, ''[W0] >>> OS started writing 0'')]
   \<and> timers (wld (snd (step (write_output_async 0 False) started_loop))) = [(1, SetResult 0 VNone)]
   \<and> printed (wld (snd (create_task (write_output_async 0 False) started_loop)))
     = [(0, ''Starting'')]
   \<and> timers (wld (snd (create_task (write_output_async 0 False) started_loop))) = []"
  by code_simp

text \<open>
  Claim C3, amended. \<open>create_task\<close> performs no drive step at submission time: it
  registers the task with its coroutine not started and puts the task's first step at
  the end of the ready queue. The first drive step is performed when the scheduler runs
  that entry, and it is exactly one step: the coroutine is stepped once, then the task
  either settles its future (the coroutine ended) or registers its wakeup on the future
  that the coroutine yielded (or, after a bare yield, queues its next step).
\<close>

theorem create_task_first_step_by_scheduler:
  "tasks (snd (create_task c l)) (fst (create_task c l)) = Some (start c)
   \<and> start c Send = c
   \<and> ready (wld (snd (create_task c l))) = ready (wld l) @ [TaskStep (fst (create_task c l))]
   \<and> run_callback (TaskStep (fst (create_task c l))) (snd (create_task c l)) =
     (case step c (snd (create_task c l)) of
        (Completed v, l') \<Rightarrow>
          l'\<lparr>wld := snd (set_result (fst (create_task c l)) v (wld l')),
             tasks := (tasks l')(fst (create_task c l) := None)\<rparr>
      | (Raised e, l') \<Rightarrow>
          l'\<lparr>wld := snd (set_exception (fst (create_task c l)) e (wld l')),
             tasks := (tasks l')(fst (create_task c l) := None)\<rparr>
      | (Suspended (Some f) k, l') \<Rightarrow>
          l'\<lparr>wld := add_done_callback f (TaskWakeup (fst (create_task c l)) f) (wld l'),
             tasks := (tasks l')(fst (create_task c l) \<mapsto> k)\<rparr>
      | (Suspended None k, l') \<Rightarrow>
          l'\<lparr>wld := call_soon (TaskStep (fst (create_task c l))) (wld l'),
             tasks := (tasks l')(fst (create_task c l) \<mapsto> k)\<rparr>)"
proof -
  have tk: "tasks (snd (create_task c l)) (fst (create_task c l)) = Some (start c)"
    by (rule tasks_create_task)
  have rd: "ready (wld (snd (create_task c l))) = ready (wld l) @ [TaskStep (fst (create_task c l))]"
    by (simp add: create_task_eq)
  show ?thesis
    using tk rd by (simp only: run_callback.simps task_step_started[OF tk] start_def resume.case simp_thms)
qed

section \<open>The lock grants in the order of the acquires\<close>

lemma fut_state_create_future [simp]:
  "fut_state (snd (create_future w)) g = fut_state w g"
  by (simp add: create_future_def fut_state_def get_future_def nth_append)

lemma create_future_fields [simp]:
  "fst (create_future w) = length (futures w)"
  "write_lock (snd (create_future w)) = write_lock w"
  "length (futures (snd (create_future w))) = Suc (length (futures w))"
  by (simp_all add: create_future_def)

lemma set_lock_fields [simp]:
  "write_lock (set_lock x w) = x"
  "futures (set_lock x w) = futures w"
  "fut_state (set_lock x w) g = fut_state w g"
  "is_done (set_lock x w) = is_done w"
  by (simp_all add: set_lock_def fut_state_def get_future_def is_done_def fun_eq_iff)

lemma is_done_create_future [simp]: "is_done (snd (create_future w)) = is_done w"
  by (simp add: is_done_def fun_eq_iff)

lemma settle_pending:
  assumes "f < length (futures w)" "fut_state w f = Pending"
  shows "fst (settle f s w) = Inr ()"
    and "fut_state (snd (settle f s w)) g = (if g = f then s else fut_state w g)"
    and "write_lock (snd (settle f s w)) = write_lock w"
    and "length (futures (snd (settle f s w))) = length (futures w)"
  using assms
  by (simp_all add: settle_def schedule_callbacks_def put_future_def fut_state_def get_future_def Let_def)

lemma step_Lock_acquire_free:
  assumes "\<not> locked (write_lock (wld l))" "waiters (write_lock (wld l)) = []"
  shows "step Lock_acquire l =
     (Completed (VBool True), l\<lparr>wld := set_lock ((write_lock (wld l))\<lparr>locked := True\<rparr>) (wld l)\<rparr>)"
  using assms by (simp add: Lock_acquire_def step_Sync del: step.simps(4))

lemma step_Lock_acquire_wait:
  assumes "locked (write_lock (wld l)) \<or> waiters (write_lock (wld l)) \<noteq> []"
  shows "step Lock_acquire l =
     (Suspended (Some (length (futures (wld l)))) (acquire_cont (length (futures (wld l)))),
      l\<lparr>wld := set_lock ((write_lock (wld l))\<lparr>waiters := waiters (write_lock (wld l)) @ [length (futures (wld l))]\<rparr>)
                  (snd (create_future (wld l)))\<rparr>)"
proof -
  have nd: "\<not> is_done (snd (create_future (wld l))) (length (futures (wld l)))"
    by (simp add: is_done_def create_future_def fut_state_def get_future_def)
  show ?thesis
    using assms nd
    by (auto simp add: Lock_acquire_def step_Sync Future_await_def acquire_cont_def fun_eq_iff
        Let_def case_prod_beta
        split: resume.splits simp del: step.simps(4))
qed

lemma step_acquire_cont:
  assumes "fut_state (wld l) f = Resolved v"
  shows "step (acquire_cont f Send) l =
     (Completed (VBool True),
      l\<lparr>wld := set_lock ((write_lock (wld l))\<lparr>waiters := remove1 f (waiters (write_lock (wld l))), locked := True\<rparr>) (wld l)\<rparr>)"
  using assms
  by (simp add: acquire_cont_def Future_result_def step_Sync set_lock_def del: step.simps(4))


lemma queued_append [simp]: "queued (xs @ ys) = queued xs @ queued ys"
  by (induction xs rule: queued.induct) simp_all

lemma granted_append [simp]: "granted (xs @ ys) = granted xs @ granted ys"
  by (induction xs rule: granted.induct) simp_all

lemma entered_append [simp]: "entered (xs @ ys) = entered xs @ entered ys"
  by (induction xs rule: entered.induct) simp_all

lemma granted_map_EvGranted [simp]: "granted (map EvGranted fs) = fs"
  by (induction fs) simp_all

lemma queued_map_EvGranted [simp]: "queued (map EvGranted fs) = []"
  by (induction fs) simp_all

lemma entered_map_EvGranted [simp]: "entered (map EvGranted fs) = []"
  by (induction fs) simp_all

lemma lock_inv_acquire:
  assumes inv: "lock_inv s"
  shows "lock_inv (lock_sim_step s OpAcquire)"
proof (cases "\<not> locked (write_lock (wld (sim_loop s))) \<and> waiters (write_lock (wld (sim_loop s))) = []")
  case True
  then show ?thesis
    using inv
    by (simp add: step_Lock_acquire_free lock_inv_def Let_def granted_waiters_def)
next
  case False
  define w where "w = wld (sim_loop s)"
  define f where "f = length (futures w)"
  have st: "step Lock_acquire (sim_loop s) =
     (Suspended (Some f) (acquire_cont f),
      (sim_loop s)\<lparr>wld := set_lock ((write_lock w)\<lparr>waiters := waiters (write_lock w) @ [f]\<rparr>)
                  (snd (create_future w))\<rparr>)"
    using False step_Lock_acquire_wait[of "sim_loop s"] by (auto simp: w_def f_def)
  have fresh: "f \<notin> set (waiters (write_lock w))"
    using inv by (auto simp: lock_inv_def Let_def w_def f_def)
  have pend: "fut_state w f = Pending"
    by (simp add: fut_state_def get_future_def f_def)
  have tl_app: "waiters (write_lock w) \<noteq> [] \<Longrightarrow> tl (waiters (write_lock w) @ [f]) = tl (waiters (write_lock w)) @ [f]"
    by simp
  have ne: "\<not> locked (write_lock w) \<Longrightarrow> waiters (write_lock w) \<noteq> []"
    using False by (auto simp: w_def)
  have nd: "\<not> is_done w f"
    using pend by (simp add: is_done_def)
  have flen: "f = length (futures w)"
    by (simp add: f_def)
  show ?thesis
    using inv fresh pend ne nd flen
    by (auto simp add: st lock_inv_def Let_def w_def[symmetric] granted_waiters_def
          less_Suc_eq)
qed


lemma lock_inv_release:
  assumes inv: "lock_inv s"
  shows "lock_inv (lock_sim_step s OpRelease)"
proof -
  define w where "w = wld (sim_loop s)"
  define ws where "ws = waiters (write_lock w)"
  show ?thesis
  proof (cases "locked (write_lock w)")
    case False
    then have "Lock_release w = (Inl (RuntimeError ''Lock is not acquired.''), w)"
      by (simp add: Lock_release_def)
    then show ?thesis
      using inv by (simp add: w_def[symmetric] lock_inv_def Let_def)
  next
    case True
    note locked = True
    have pend: "\<forall>f \<in> set ws. fut_state w f = Pending"
      using inv locked by (simp add: lock_inv_def Let_def w_def ws_def)
    have dist: "distinct ws" and len: "\<forall>f \<in> set ws. f < length (futures w)"
      using inv by (simp_all add: lock_inv_def Let_def w_def ws_def)
    define w1 where "w1 = set_lock ((write_lock w)\<lparr>locked := False\<rparr>) w"
    show ?thesis
    proof (cases ws)
      case Nil
      then have rel: "Lock_release w = (Inr (), w1)"
        using locked by (simp add: Lock_release_def Lock_wake_up_first_def w1_def ws_def)
      have ng: "newly_granted w w1 = []"
        using Nil by (simp add: newly_granted_def ws_def)
      have wl1: "write_lock w1 = (write_lock w)\<lparr>locked := False\<rparr>"
        and st1: "\<And>g. fut_state w1 g = fut_state w g"
        and len1: "futures w1 = futures w"
        by (simp_all add: w1_def)
      have gw1: "granted_waiters w1 = []"
        using Nil by (simp add: granted_waiters_def wl1 ws_def[symmetric])
      have gw0: "granted_waiters w = []"
        using Nil by (simp add: granted_waiters_def ws_def[symmetric])
      show ?thesis
        using inv Nil
        by (simp add: rel ng gw1 gw0 w_def[symmetric] lock_inv_def Let_def ws_def[symmetric] wl1 st1 len1)
    next
      case (Cons f fs)
      have fp: "fut_state w1 f = Pending" and fl: "f < length (futures w1)"
        using pend len Cons by (simp_all add: w1_def)
      define w2 where "w2 = snd (set_result f (VBool True) w1)"
      have ww1: "waiters (write_lock w1) = f # fs"
        using Cons by (simp add: w1_def ws_def)
      have rel: "Lock_release w = (Inr (), w2)"
        using locked fp
        by (simp add: Lock_release_def Lock_wake_up_first_def w1_def[symmetric] ww1
              is_done_def w2_def)
      have st2: "\<And>g. fut_state w2 g = (if g = f then Resolved (VBool True) else fut_state w g)"
        using settle_pending(2)[OF fl fp] by (simp add: w2_def set_result_def w1_def)
      have wl2: "write_lock w2 = (write_lock w)\<lparr>locked := False\<rparr>"
        using settle_pending(3)[OF fl fp] by (simp add: w2_def set_result_def w1_def)
      have len2: "length (futures w2) = length (futures w)"
        using settle_pending(4)[OF fl fp] by (simp add: w2_def set_result_def w1_def)
      have fnot: "f \<notin> set fs"
        using dist Cons by simp
      have fsp: "\<forall>g \<in> set fs. fut_state w g = Pending"
        using pend Cons by simp
      have fne: "filter (\<lambda>g. g = f) fs = []"
        using fnot by (auto simp add: filter_empty_conv)
      have ng: "newly_granted w w2 = [f]"
        using pend Cons fnot
        by (simp add: newly_granted_def ws_def[symmetric] is_done_def st2 fne cong: filter_cong)
      have "filter (is_done w2) fs = []"
        using fsp fnot by (auto simp add: filter_empty_conv is_done_def st2)
      then have gw: "granted_waiters w2 = [f]"
        by (simp add: granted_waiters_def wl2 ws_def[symmetric] Cons is_done_def st2)
      have gw0: "granted_waiters w = []"
        using pend by (auto simp add: granted_waiters_def ws_def[symmetric] is_done_def filter_empty_conv)
      have fsne: "\<forall>g \<in> set fs. g \<noteq> f"
        using fnot by auto
      show ?thesis
        using inv Cons fsp fnot len fsne
        by (simp add: rel ng gw w_def[symmetric] lock_inv_def Let_def wl2 ws_def[symmetric] st2
              len2 gw0)
    qed
  qed
qed

lemma lock_inv_wakeup:
  assumes inv: "lock_inv s"
  shows "lock_inv (lock_sim_step s OpWakeup)"
proof -
  define w where "w = wld (sim_loop s)"
  define ws where "ws = waiters (write_lock w)"
  have sus: "map fst (suspended s) = ws"
    using inv by (simp add: lock_inv_def Let_def w_def ws_def)
  have dist: "distinct ws"
    using inv by (simp add: lock_inv_def Let_def w_def ws_def)
  have conts: "\<forall>(f, k) \<in> set (suspended s). k = acquire_cont f"
    using inv by (simp add: lock_inv_def Let_def)
  have res: "\<forall>f \<in> set ws. fut_state w f = Pending \<or> fut_state w f = Resolved (VBool True)"
    using inv by (simp add: lock_inv_def Let_def w_def ws_def)
  have pend: "\<forall>f \<in> set (if locked (write_lock w) then ws else tl ws). fut_state w f = Pending"
    using inv by (simp add: lock_inv_def Let_def w_def ws_def)
  show ?thesis
  proof (cases "filter (\<lambda>(f, k). is_done w f) (suspended s)")
    case Nil
    then show ?thesis using inv by (simp add: w_def)
  next
    case (Cons p ps)
    obtain f k where p: "p = (f, k)" by (cases p)
    have "p \<in> set (filter (\<lambda>(f, k). is_done w f) (suspended s))"
      using Cons by simp
    then have mem: "(f, k) \<in> set (suspended s)" and fdone: "is_done w f"
      using p by auto
    have fws: "f \<in> set ws"
      using mem sus by force
    have notlocked: "\<not> locked (write_lock w)"
      using pend fws fdone by (auto simp: is_done_def)
    have tlp: "\<forall>g \<in> set (tl ws). fut_state w g = Pending"
      using pend notlocked by simp
    have hd: "ws = f # tl ws"
    proof (cases ws)
      case Nil then show ?thesis using fws by simp
    next
      case (Cons g gs)
      then show ?thesis using fws tlp fdone by (auto simp: is_done_def)
    qed
    have fres: "fut_state w f = Resolved (VBool True)"
      using res fws fdone by (auto simp: is_done_def)
    have k: "k = acquire_cont f"
      using conts mem by auto
    obtain q qs where susq: "suspended s = q # qs"
      using mem by (cases "suspended s") auto
    have "fst q # map fst qs = f # tl ws"
      using sus hd susq by simp
    then have q: "fst q = f" and qs: "map fst qs = tl ws"
      by simp_all
    have "distinct (f # tl ws)"
      using dist hd by simp
    then have fnot: "f \<notin> set (tl ws)"
      by simp
    have filt: "filter (\<lambda>(g, _). g \<noteq> f) (suspended s) = qs"
    proof -
      have "set (map fst qs) = set (tl ws)"
        using qs by simp
      then have "\<forall>x \<in> set qs. fst x \<noteq> f"
        using fnot by auto
      then have "filter (\<lambda>(g, _). g \<noteq> f) qs = qs"
        by (induction qs) auto
      then show ?thesis using q susq by (cases q) auto
    qed
    have contsq: "\<forall>(f, k) \<in> set qs. k = acquire_cont f"
      using conts susq by simp
    have wr: "wakeup_resume w f = Send"
      by (simp add: wakeup_resume_def fres)
    have rm: "remove1 f ws = tl ws"
      by (subst hd) simp
    have st: "step (k Send) (sim_loop s) =
      (Completed (VBool True),
       (sim_loop s)\<lparr>wld := set_lock ((write_lock w)\<lparr>waiters := tl ws, locked := True\<rparr>) w\<rparr>)"
      using step_acquire_cont[of "sim_loop s" f "VBool True"] fres
      by (simp add: k w_def[symmetric] ws_def[symmetric] rm)
    have "filter (is_done w) (tl ws) = []"
      using tlp by (auto simp add: filter_empty_conv is_done_def)
    then have "filter (is_done w) (f # tl ws) = [f]"
      using fdone by simp
    then have gw: "granted_waiters w = [f]"
      using hd by (simp add: granted_waiters_def ws_def[symmetric])
    have gw': "granted_waiters (set_lock ((write_lock w)\<lparr>waiters := tl ws, locked := True\<rparr>) w) = []"
      using tlp by (auto simp add: granted_waiters_def is_done_def filter_empty_conv)
    have "\<forall>g \<in> set ws. g < length (futures w)"
      using inv by (simp add: lock_inv_def Let_def w_def ws_def)
    then have lenw: "\<forall>g \<in> set (tl ws). g < length (futures w)"
      by (cases ws) auto
    have dtl: "distinct (tl ws)"
      using dist by (simp add: distinct_tl)
    have ev: "queued (events s) = entered (events s) @ ws"
        "granted (events s) = entered (events s) @ granted_waiters w"
      using inv by (simp_all add: lock_inv_def Let_def w_def ws_def)
    have qev: "queued (events s) = (entered (events s) @ [f]) @ tl ws"
      using ev(1) hd by simp
    have "distinct (entered (events s) @ ws)"
      using inv by (simp add: lock_inv_def Let_def w_def ws_def)
    then have "distinct (entered (events s) @ f # tl ws)"
      using hd by simp
    then have dE: "distinct (entered (events s))" "f \<notin> set (tl ws)"
        "f \<notin> set (entered (events s))" "set (entered (events s)) \<inter> set (tl ws) = {}"
      by auto
    have lE: "\<forall>g \<in> set (entered (events s)). g < length (futures w)"
      using inv by (simp add: lock_inv_def Let_def w_def ws_def)
    have "\<forall>g \<in> set ws. g < length (futures w)"
      using inv by (simp add: lock_inv_def Let_def w_def ws_def)
    then have flen: "f < length (futures w)"
      using fws by simp
    show ?thesis
      using Cons p wr st filt qs contsq tlp dtl lenw ev(2) qev gw gw' dE lE flen
      by (simp add: w_def[symmetric] lock_inv_def Let_def)
  qed
qed

lemma lock_inv_step: "lock_inv s \<Longrightarrow> lock_inv (lock_sim_step s op)"
  by (cases op) (simp_all only: lock_inv_acquire lock_inv_release lock_inv_wakeup)

lemma lock_inv_foldl: "lock_inv s \<Longrightarrow> lock_inv (foldl lock_sim_step s ops)"
  by (induction ops arbitrary: s) (simp_all add: lock_inv_step)

lemma lock_inv_start:
  "waiters (write_lock (wld l)) = [] \<Longrightarrow> lock_inv (lock_sim_start l)"
  by (simp add: lock_inv_def lock_sim_start_def granted_waiters_def)

lemma lock_inv_granted_le_one: "lock_inv s \<Longrightarrow> length (granted_waiters (wld (sim_loop s))) \<le> 1"
proof -
  assume inv: "lock_inv s"
  define w where "w = wld (sim_loop s)"
  define ws where "ws = waiters (write_lock w)"
  have pend: "\<forall>f \<in> set (tl ws). fut_state w f = Pending"
    using inv by (cases ws) (auto simp add: lock_inv_def Let_def w_def ws_def split: if_splits)
  then have "filter (is_done w) (tl ws) = []"
    by (auto simp add: filter_empty_conv is_done_def)
  then have "length (filter (is_done w) ws) \<le> 1"
    by (cases ws) auto
  then show ?thesis by (simp add: granted_waiters_def w_def ws_def)
qed



lemma lock_sim_run_snoc:
  "lock_sim_run l (ops @ [op]) = lock_sim_step (lock_sim_run l ops) op"
  by (simp add: lock_sim_run_def)

lemma lock_inv_run:
  "waiters (write_lock (wld l)) = [] \<Longrightarrow> lock_inv (lock_sim_run l ops)"
  unfolding lock_sim_run_def by (rule lock_inv_foldl) (rule lock_inv_start)

text \<open>What a release does to a held lock with a waiter at the head of its queue.\<close>

lemma release_result:
  assumes inv: "lock_inv s"
    and locked: "locked (write_lock (wld (sim_loop s)))"
    and ws: "waiters (write_lock (wld (sim_loop s))) = f # fs"
  shows "events (lock_sim_step s OpRelease) = events s @ [EvGranted f]"
    and "granted_waiters (wld (sim_loop (lock_sim_step s OpRelease))) = [f]"
proof -
  define w where "w = wld (sim_loop s)"
  have pend: "\<forall>g \<in> set (f # fs). fut_state w g = Pending"
    using inv locked ws by (simp add: lock_inv_def Let_def w_def)
  have dist: "distinct (f # fs)" and len: "\<forall>g \<in> set (f # fs). g < length (futures w)"
    using inv ws by (simp_all add: lock_inv_def Let_def w_def)
  define w1 where "w1 = set_lock ((write_lock w)\<lparr>locked := False\<rparr>) w"
  have fp: "fut_state w1 f = Pending" and fl: "f < length (futures w1)"
    using pend len by (simp_all add: w1_def)
  define w2 where "w2 = snd (set_result f (VBool True) w1)"
  have ww1: "waiters (write_lock w1) = f # fs"
    using ws by (simp add: w1_def w_def)
  have rel: "Lock_release w = (Inr (), w2)"
    using locked fp
    by (simp add: Lock_release_def Lock_wake_up_first_def w1_def[symmetric] ww1
          is_done_def w2_def w_def[symmetric])
  have st2: "\<And>g. fut_state w2 g = (if g = f then Resolved (VBool True) else fut_state w g)"
    using settle_pending(2)[OF fl fp] by (simp add: w2_def set_result_def w1_def)
  have wl2: "write_lock w2 = (write_lock w)\<lparr>locked := False\<rparr>"
    using settle_pending(3)[OF fl fp] by (simp add: w2_def set_result_def w1_def)
  have fnot: "f \<notin> set fs"
    using dist by simp
  have fsp: "\<forall>g \<in> set fs. fut_state w g = Pending"
    using pend by simp
  have fne: "filter (\<lambda>g. g = f) fs = []"
    using fnot by (auto simp add: filter_empty_conv)
  have ng: "newly_granted w w2 = [f]"
    using pend fnot ws
    by (simp add: newly_granted_def w_def[symmetric] is_done_def st2 fne cong: filter_cong)
  have "filter (is_done w2) fs = []"
    using fsp fnot by (auto simp add: filter_empty_conv is_done_def st2)
  then have gw: "granted_waiters w2 = [f]"
    using ws by (simp add: granted_waiters_def wl2 w_def[symmetric] is_done_def st2)
  show "events (lock_sim_step s OpRelease) = events s @ [EvGranted f]"
    by (simp add: w_def[symmetric] rel ng)
  show "granted_waiters (wld (sim_loop (lock_sim_step s OpRelease))) = [f]"
    by (simp add: w_def[symmetric] rel gw)
qed

text \<open>What a wakeup does when the waiter at the head of the queue has been granted.\<close>

lemma wakeup_result:
  assumes inv: "lock_inv s"
    and gw: "granted_waiters (wld (sim_loop s)) \<noteq> []"
  shows "events (lock_sim_step s OpWakeup)
           = events s @ [EvEntered (hd (waiters (write_lock (wld (sim_loop s)))))]"
    and "locked (write_lock (wld (sim_loop (lock_sim_step s OpWakeup))))"
    and "granted_waiters (wld (sim_loop s)) = [hd (waiters (write_lock (wld (sim_loop s))))]"
proof -
  define w where "w = wld (sim_loop s)"
  define ws where "ws = waiters (write_lock w)"
  have sus: "map fst (suspended s) = ws"
    using inv by (simp add: lock_inv_def Let_def w_def ws_def)
  have conts: "\<forall>(f, k) \<in> set (suspended s). k = acquire_cont f"
    using inv by (simp add: lock_inv_def Let_def)
  have res: "\<forall>f \<in> set ws. fut_state w f = Pending \<or> fut_state w f = Resolved (VBool True)"
    using inv by (simp add: lock_inv_def Let_def w_def ws_def)
  have pend: "\<forall>f \<in> set (if locked (write_lock w) then ws else tl ws). fut_state w f = Pending"
    using inv by (simp add: lock_inv_def Let_def w_def ws_def)
  have "filter (is_done w) ws \<noteq> []"
    using gw by (simp add: granted_waiters_def w_def ws_def)
  then have "\<exists>f \<in> set ws. is_done w f"
    by (simp add: filter_empty_conv)
  then obtain f where fws: "f \<in> set ws" and fdone: "is_done w f"
    by blast
  have notlocked: "\<not> locked (write_lock w)"
    using pend fws fdone by (auto simp: is_done_def)
  have tlp: "\<forall>g \<in> set (tl ws). fut_state w g = Pending"
    using pend notlocked by simp
  have hd: "ws = f # tl ws"
  proof (cases ws)
    case Nil then show ?thesis using fws by simp
  next
    case (Cons g gs)
    then show ?thesis using fws tlp fdone by (auto simp: is_done_def)
  qed
  have hdf: "hd ws = f"
    by (subst hd) simp
  have fres: "fut_state w f = Resolved (VBool True)"
    using res fws fdone by (auto simp: is_done_def)
  obtain q qs where susq: "suspended s = q # qs"
    using sus hd by (cases "suspended s") auto
  have "fst q # map fst qs = f # tl ws"
    using sus hd susq by simp
  then have q: "fst q = f" and qs: "map fst qs = tl ws"
    by simp_all
  obtain k where qk: "q = (f, k)"
    using q by (cases q) auto
  have k: "k = acquire_cont f"
    using conts susq qk by simp
  have "set (map fst qs) = set (tl ws)"
    using qs by simp
  then have qsp: "\<forall>x \<in> set qs. \<not> is_done w (fst x)"
    using tlp by (auto simp: is_done_def)
  then have "filter (\<lambda>(f, k). is_done w f) qs = []"
    by (auto simp add: filter_empty_conv)
  then have filt: "filter (\<lambda>(f, k). is_done w f) (suspended s) = [(f, k)]"
    using susq qk fdone by simp
  have wr: "wakeup_resume w f = Send"
    by (simp add: wakeup_resume_def fres)
  have rm: "remove1 f ws = tl ws"
    by (subst hd) simp
  have st: "step (k Send) (sim_loop s) =
    (Completed (VBool True),
     (sim_loop s)\<lparr>wld := set_lock ((write_lock w)\<lparr>waiters := tl ws, locked := True\<rparr>) w\<rparr>)"
    using step_acquire_cont[of "sim_loop s" f "VBool True"] fres
    by (simp add: k w_def[symmetric] ws_def[symmetric] rm)
  have "filter (is_done w) (tl ws) = []"
    using tlp by (auto simp add: filter_empty_conv is_done_def)
  then have "filter (is_done w) (f # tl ws) = [f]"
    using fdone by simp
  then have gwf: "granted_waiters w = [f]"
    using hd by (simp add: granted_waiters_def ws_def[symmetric])
  show "events (lock_sim_step s OpWakeup)
           = events s @ [EvEntered (hd (waiters (write_lock (wld (sim_loop s)))))]"
    using filt wr st by (simp add: w_def[symmetric] ws_def[symmetric] hdf)
  show "locked (write_lock (wld (sim_loop (lock_sim_step s OpWakeup))))"
    using filt wr st by (simp add: w_def[symmetric])
  show "granted_waiters (wld (sim_loop s)) = [hd (waiters (write_lock (wld (sim_loop s))))]"
    using gwf by (simp add: w_def[symmetric] ws_def[symmetric] hdf)
qed

lemma inv_events:
  assumes "lock_inv s"
  shows "queued (events s) = entered (events s) @ waiters (write_lock (wld (sim_loop s)))"
    and "granted (events s) = entered (events s) @ granted_waiters (wld (sim_loop s))"
  using assms by (simp_all add: lock_inv_def Let_def)

lemma inv_locked_no_grant:
  assumes "lock_inv s" "locked (write_lock (wld (sim_loop s)))"
  shows "granted_waiters (wld (sim_loop s)) = []"
  using assms
  by (auto simp add: lock_inv_def Let_def granted_waiters_def filter_empty_conv is_done_def)

text \<open>A release of the held lock grants the oldest queued waiter that has no grant yet.\<close>

lemma release_progress:
  assumes inv: "lock_inv s"
    and locked: "locked (write_lock (wld (sim_loop s)))"
    and more: "length (granted (events s)) < length (queued (events s))"
  shows "granted (events (lock_sim_step s OpRelease))
           = granted (events s) @ [queued (events s) ! length (granted (events s))]"
proof -
  have g0: "granted_waiters (wld (sim_loop s)) = []"
    by (rule inv_locked_no_grant[OF inv locked])
  have g: "granted (events s) = entered (events s)"
    using inv_events(2)[OF inv] g0 by simp
  have q: "queued (events s) = entered (events s) @ waiters (write_lock (wld (sim_loop s)))"
    by (rule inv_events(1)[OF inv])
  obtain f fs where ws: "waiters (write_lock (wld (sim_loop s))) = f # fs"
    using more g q by (cases "waiters (write_lock (wld (sim_loop s)))") auto
  have nth: "queued (events s) ! length (granted (events s)) = f"
    by (simp add: q g ws)
  show ?thesis
    using release_result(1)[OF inv locked ws] by (simp add: nth)
qed

text \<open>A wakeup resumes the granted waiter, which then holds the lock.\<close>

lemma wakeup_progress:
  assumes inv: "lock_inv s"
    and more: "length (entered (events s)) < length (granted (events s))"
  shows "entered (events (lock_sim_step s OpWakeup))
           = entered (events s) @ [granted (events s) ! length (entered (events s))]"
    and "locked (write_lock (wld (sim_loop (lock_sim_step s OpWakeup))))"
proof -
  have g: "granted (events s) = entered (events s) @ granted_waiters (wld (sim_loop s))"
    by (rule inv_events(2)[OF inv])
  have gw: "granted_waiters (wld (sim_loop s)) \<noteq> []"
    using more g by auto
  have gwf: "granted_waiters (wld (sim_loop s)) = [hd (waiters (write_lock (wld (sim_loop s))))]"
    by (rule wakeup_result(3)[OF inv gw])
  have nth: "granted (events s) ! length (entered (events s))
               = hd (waiters (write_lock (wld (sim_loop s))))"
    by (subst g) (simp add: gwf)
  show "entered (events (lock_sim_step s OpWakeup))
           = entered (events s) @ [granted (events s) ! length (entered (events s))]"
    using wakeup_result(1)[OF inv gw] by (simp add: nth)
  show "locked (write_lock (wld (sim_loop (lock_sim_step s OpWakeup))))"
    by (rule wakeup_result(2)[OF inv gw])
qed

lemma settled_acquire:
  assumes st: "lock_settled s"
  shows "lock_settled (lock_sim_step s OpAcquire)"
    and "entered (events (lock_sim_step s OpAcquire)) = entered (events s)"
    and "locked (write_lock (wld (sim_loop (lock_sim_step s OpAcquire))))"
    and "locked (write_lock (wld (sim_loop s))) \<Longrightarrow>
           waiters (write_lock (wld (sim_loop (lock_sim_step s OpAcquire))))
             = waiters (write_lock (wld (sim_loop s))) @ [length (futures (wld (sim_loop s)))]
           \<and> length (futures (wld (sim_loop (lock_sim_step s OpAcquire))))
             = Suc (length (futures (wld (sim_loop s))))"
    and "\<not> locked (write_lock (wld (sim_loop s))) \<Longrightarrow>
           waiters (write_lock (wld (sim_loop (lock_sim_step s OpAcquire)))) = []
           \<and> length (futures (wld (sim_loop (lock_sim_step s OpAcquire))))
             = length (futures (wld (sim_loop s)))"
proof -
  have inv: "lock_inv s"
    using st by (simp add: lock_settled_def)
  have inv': "lock_inv (lock_sim_step s OpAcquire)"
    by (rule lock_inv_acquire[OF inv])
  have shape: "locked (write_lock (wld (sim_loop s))) \<or> waiters (write_lock (wld (sim_loop s))) = []"
    using st by (simp add: lock_settled_def)
  have all: "entered (events (lock_sim_step s OpAcquire)) = entered (events s)
    \<and> locked (write_lock (wld (sim_loop (lock_sim_step s OpAcquire))))
    \<and> (locked (write_lock (wld (sim_loop s))) \<longrightarrow>
           waiters (write_lock (wld (sim_loop (lock_sim_step s OpAcquire))))
             = waiters (write_lock (wld (sim_loop s))) @ [length (futures (wld (sim_loop s)))]
           \<and> length (futures (wld (sim_loop (lock_sim_step s OpAcquire))))
             = Suc (length (futures (wld (sim_loop s)))))
    \<and> (\<not> locked (write_lock (wld (sim_loop s))) \<longrightarrow>
           waiters (write_lock (wld (sim_loop (lock_sim_step s OpAcquire)))) = []
           \<and> length (futures (wld (sim_loop (lock_sim_step s OpAcquire))))
             = length (futures (wld (sim_loop s))))"
  proof (cases "locked (write_lock (wld (sim_loop s)))")
    case True
    then show ?thesis
      using step_Lock_acquire_wait[of "sim_loop s"] by simp
  next
    case False
    then have "waiters (write_lock (wld (sim_loop s))) = []"
      using shape by simp
    then show ?thesis
      using False step_Lock_acquire_free[of "sim_loop s"] by simp
  qed
  show "entered (events (lock_sim_step s OpAcquire)) = entered (events s)"
    and l': "locked (write_lock (wld (sim_loop (lock_sim_step s OpAcquire))))"
    using all by simp_all
  show "locked (write_lock (wld (sim_loop s))) \<Longrightarrow>
           waiters (write_lock (wld (sim_loop (lock_sim_step s OpAcquire))))
             = waiters (write_lock (wld (sim_loop s))) @ [length (futures (wld (sim_loop s)))]
           \<and> length (futures (wld (sim_loop (lock_sim_step s OpAcquire))))
             = Suc (length (futures (wld (sim_loop s))))"
    using all by simp
  show "\<not> locked (write_lock (wld (sim_loop s))) \<Longrightarrow>
           waiters (write_lock (wld (sim_loop (lock_sim_step s OpAcquire)))) = []
           \<and> length (futures (wld (sim_loop (lock_sim_step s OpAcquire))))
             = length (futures (wld (sim_loop s)))"
    using all by simp
  show "lock_settled (lock_sim_step s OpAcquire)"
    using inv' l' inv_locked_no_grant[OF inv' l'] by (simp add: lock_settled_def)
qed

lemma settled_pair:
  assumes st: "lock_settled s"
  shows "lock_settled (lock_sim_step (lock_sim_step s OpRelease) OpWakeup)"
    and "entered (events (lock_sim_step (lock_sim_step s OpRelease) OpWakeup))
           = entered (events s) @ take 1 (waiters (write_lock (wld (sim_loop s))))"
    and "waiters (write_lock (wld (sim_loop (lock_sim_step (lock_sim_step s OpRelease) OpWakeup))))
           = drop 1 (waiters (write_lock (wld (sim_loop s))))"
proof -
  define s1 where "s1 = lock_sim_step s OpRelease"
  define s2 where "s2 = lock_sim_step s1 OpWakeup"
  define w where "w = wld (sim_loop s)"
  define ws where "ws = waiters (write_lock w)"
  have inv: "lock_inv s"
    using st by (simp add: lock_settled_def)
  have inv1: "lock_inv s1"
    unfolding s1_def by (rule lock_inv_release[OF inv])
  have inv2: "lock_inv s2"
    unfolding s2_def by (rule lock_inv_wakeup[OF inv1])
  have shape: "locked (write_lock w) \<or> ws = []"
    using st by (simp add: lock_settled_def w_def ws_def)
  have sus: "map fst (suspended s) = ws"
    using inv by (simp add: lock_inv_def Let_def w_def ws_def)
  have all: "lock_settled s2 \<and> entered (events s2) = entered (events s) @ take 1 ws
     \<and> waiters (write_lock (wld (sim_loop s2))) = drop 1 ws"
  proof (cases ws)
    case Nil
    have nosus: "suspended s = []"
      using sus Nil by simp
    have s1w: "waiters (write_lock (wld (sim_loop s1))) = [] \<and> suspended s1 = []
       \<and> entered (events s1) = entered (events s)"
      using Nil nosus
      by (cases "locked (write_lock w)")
         (simp_all add: s1_def w_def[symmetric] ws_def[symmetric] Lock_release_def
            Lock_wake_up_first_def newly_granted_def)
    then have s2e: "s2 = s1"
      by (simp add: s2_def)
    have "granted_waiters (wld (sim_loop s2)) = []"
      using s1w s2e by (simp add: granted_waiters_def)
    then show ?thesis
      using inv2 s1w s2e Nil by (simp add: lock_settled_def)
  next
    case (Cons f fs)
    then have locked: "locked (write_lock w)"
      using shape by simp
    have wsf: "waiters (write_lock (wld (sim_loop s))) = f # fs"
      using Cons by (simp add: ws_def w_def)
    have lk: "locked (write_lock (wld (sim_loop s)))"
      using locked by (simp add: w_def)
    have e1: "events s1 = events s @ [EvGranted f]"
      and g1: "granted_waiters (wld (sim_loop s1)) = [f]"
      using release_result[OF inv lk wsf] by (simp_all add: s1_def)
    have g1ne: "granted_waiters (wld (sim_loop s1)) \<noteq> []"
      using g1 by simp
    have hd1: "hd (waiters (write_lock (wld (sim_loop s1)))) = f"
      using wakeup_result(3)[OF inv1 g1ne] g1 by simp
    have e2: "events s2 = events s1 @ [EvEntered f]"
      using wakeup_result(1)[OF inv1 g1ne] hd1 by (simp add: s2_def)
    have l2: "locked (write_lock (wld (sim_loop s2)))"
      using wakeup_result(2)[OF inv1 g1ne] by (simp add: s2_def)
    have ent: "entered (events s2) = entered (events s) @ [f]"
      by (simp add: e2 e1)
    have q0: "queued (events s) = entered (events s) @ f # fs"
      using inv_events(1)[OF inv] wsf by simp
    have q2: "queued (events s2) = entered (events s2) @ waiters (write_lock (wld (sim_loop s2)))"
      by (rule inv_events(1)[OF inv2])
    have "queued (events s2) = queued (events s)"
      by (simp add: e2 e1)
    then have "entered (events s) @ f # fs
                 = (entered (events s) @ [f]) @ waiters (write_lock (wld (sim_loop s2)))"
      using q0 q2 ent by simp
    then have ws2: "waiters (write_lock (wld (sim_loop s2))) = fs"
      by simp
    have "lock_settled s2"
      using inv2 l2 inv_locked_no_grant[OF inv2 l2] by (simp add: lock_settled_def)
    then show ?thesis
      using ent ws2 Cons by simp
  qed
  show "lock_settled (lock_sim_step (lock_sim_step s OpRelease) OpWakeup)"
    and "entered (events (lock_sim_step (lock_sim_step s OpRelease) OpWakeup))
           = entered (events s) @ take 1 (waiters (write_lock (wld (sim_loop s))))"
    and "waiters (write_lock (wld (sim_loop (lock_sim_step (lock_sim_step s OpRelease) OpWakeup))))
           = drop 1 (waiters (write_lock (wld (sim_loop s))))"
    using all by (simp_all add: s2_def s1_def ws_def w_def)
qed

lemma settled_acquires:
  assumes "lock_settled s" "locked (write_lock (wld (sim_loop s)))"
  shows "lock_settled (foldl lock_sim_step s (replicate N OpAcquire))
       \<and> locked (write_lock (wld (sim_loop (foldl lock_sim_step s (replicate N OpAcquire)))))
       \<and> entered (events (foldl lock_sim_step s (replicate N OpAcquire))) = entered (events s)
       \<and> waiters (write_lock (wld (sim_loop (foldl lock_sim_step s (replicate N OpAcquire)))))
           = waiters (write_lock (wld (sim_loop s)))
             @ [length (futures (wld (sim_loop s))) ..< length (futures (wld (sim_loop s))) + N]"
  using assms
proof (induction N arbitrary: s)
  case 0
  then show ?case by simp
next
  case (Suc N)
  define s1 where "s1 = lock_sim_step s OpAcquire"
  have a: "lock_settled s1" "locked (write_lock (wld (sim_loop s1)))"
    "entered (events s1) = entered (events s)"
    "waiters (write_lock (wld (sim_loop s1)))
       = waiters (write_lock (wld (sim_loop s))) @ [length (futures (wld (sim_loop s)))]"
    "length (futures (wld (sim_loop s1))) = Suc (length (futures (wld (sim_loop s))))"
    using settled_acquire[OF Suc.prems(1)] Suc.prems(2) by (simp_all add: s1_def)
  have eq: "foldl lock_sim_step s (replicate (Suc N) OpAcquire)
              = foldl lock_sim_step s1 (replicate N OpAcquire)"
    by (simp only: replicate_Suc foldl_Cons s1_def)
  have u: "[length (futures (wld (sim_loop s))) ..< length (futures (wld (sim_loop s))) + Suc N]
             = length (futures (wld (sim_loop s)))
               # [Suc (length (futures (wld (sim_loop s))))
                    ..< Suc (length (futures (wld (sim_loop s)))) + N]"
    by (simp add: upt_conv_Cons)
  show ?case
    using Suc.IH[OF a(1) a(2)] a(3) a(4) a(5)
    by (simp only: eq u) simp
qed

lemma settled_pairs:
  assumes "lock_settled s"
  shows "lock_settled (foldl lock_sim_step s (concat (replicate k [OpRelease, OpWakeup])))
       \<and> entered (events (foldl lock_sim_step s (concat (replicate k [OpRelease, OpWakeup]))))
           = entered (events s) @ take k (waiters (write_lock (wld (sim_loop s))))
       \<and> waiters (write_lock (wld (sim_loop
             (foldl lock_sim_step s (concat (replicate k [OpRelease, OpWakeup]))))))
           = drop k (waiters (write_lock (wld (sim_loop s))))"
  using assms
proof (induction k arbitrary: s)
  case 0
  then show ?case by simp
next
  case (Suc k)
  define s2 where "s2 = lock_sim_step (lock_sim_step s OpRelease) OpWakeup"
  define ws where "ws = waiters (write_lock (wld (sim_loop s)))"
  have a: "lock_settled s2" "entered (events s2) = entered (events s) @ take 1 ws"
    "waiters (write_lock (wld (sim_loop s2))) = drop 1 ws"
    using settled_pair[OF Suc.prems] by (simp_all add: s2_def ws_def)
  have t: "take 1 ws @ take k (drop 1 ws) = take (Suc k) ws"
    by (cases ws) simp_all
  have eq: "foldl lock_sim_step s (concat (replicate (Suc k) [OpRelease, OpWakeup]))
              = foldl lock_sim_step s2 (concat (replicate k [OpRelease, OpWakeup]))"
    by (simp only: replicate_Suc concat.simps foldl_append foldl_Cons foldl_Nil s2_def)
  have d: "drop k (drop 1 ws) = drop (Suc k) ws"
    by simp
  show ?case
    using Suc.IH[OF a(1)] a(2) a(3) t d
    by (simp only: eq ws_def[symmetric]) simp
qed

text \<open>
  \<open>N\<close> acquires followed by \<open>k\<close> releases, each release followed by the wakeup of the
  caller it granted.
\<close>

lemma acquires_then_releases:
  assumes "waiters (write_lock (wld l)) = []"
  shows "queued (events (lock_sim_run l
            (replicate N OpAcquire @ concat (replicate k [OpRelease, OpWakeup]))))
           = [length (futures (wld l)) ..<
                length (futures (wld l)) + (if locked (write_lock (wld l)) then N else N - 1)]
       \<and> granted (events (lock_sim_run l
            (replicate N OpAcquire @ concat (replicate k [OpRelease, OpWakeup]))))
           = take k (queued (events (lock_sim_run l
               (replicate N OpAcquire @ concat (replicate k [OpRelease, OpWakeup])))))
       \<and> entered (events (lock_sim_run l
            (replicate N OpAcquire @ concat (replicate k [OpRelease, OpWakeup]))))
           = take k (queued (events (lock_sim_run l
               (replicate N OpAcquire @ concat (replicate k [OpRelease, OpWakeup])))))"
proof -
  define n where "n = length (futures (wld l))"
  define m where "m = (if locked (write_lock (wld l)) then N else N - 1)"
  define s0 where "s0 = lock_sim_start l"
  define sa where "sa = foldl lock_sim_step s0 (replicate N OpAcquire)"
  define sb where "sb = foldl lock_sim_step sa (concat (replicate k [OpRelease, OpWakeup]))"
  have run: "lock_sim_run l (replicate N OpAcquire @ concat (replicate k [OpRelease, OpWakeup])) = sb"
    by (simp add: lock_sim_run_def sb_def sa_def s0_def)
  have st0: "lock_settled s0"
    using lock_inv_start[OF assms] assms
    by (simp add: lock_settled_def s0_def lock_sim_start_def granted_waiters_def)
  have f0: "wld (sim_loop s0) = wld l" "events s0 = []"
    by (simp_all add: s0_def lock_sim_start_def)
  have a: "lock_settled sa \<and> entered (events sa) = []
     \<and> waiters (write_lock (wld (sim_loop sa))) = [n ..< n + m]"
  proof (cases "locked (write_lock (wld l))")
    case True
    then have lk: "locked (write_lock (wld (sim_loop s0)))"
      by (simp add: f0)
    show ?thesis
      using settled_acquires[OF st0 lk, of N] True assms
      by (simp add: sa_def[symmetric] f0 n_def m_def)
  next
    case False
    show ?thesis
    proof (cases N)
      case 0
      then show ?thesis
        using st0 assms False by (simp add: sa_def f0 m_def)
    next
      case (Suc M)
      define s1 where "s1 = lock_sim_step s0 OpAcquire"
      have nl: "\<not> locked (write_lock (wld (sim_loop s0)))"
        using False by (simp add: f0)
      have b: "lock_settled s1" "entered (events s1) = []"
        "locked (write_lock (wld (sim_loop s1)))"
        "waiters (write_lock (wld (sim_loop s1))) = []"
        "length (futures (wld (sim_loop s1))) = n"
        using settled_acquire[OF st0] nl by (simp_all add: s1_def f0 n_def)
      have "sa = foldl lock_sim_step s1 (replicate M OpAcquire)"
        by (simp only: sa_def Suc replicate_Suc foldl_Cons s1_def)
      then show ?thesis
        using settled_acquires[OF b(1) b(3), of M] b(2) b(4) b(5) False Suc
        by (simp add: m_def)
    qed
  qed
  have p: "lock_settled sb \<and> entered (events sb) = take k [n ..< n + m]
     \<and> waiters (write_lock (wld (sim_loop sb))) = drop k [n ..< n + m]"
    using settled_pairs[of sa k] a by (simp add: sb_def[symmetric])
  have invb: "lock_inv sb" and gwb: "granted_waiters (wld (sim_loop sb)) = []"
    using p by (simp_all add: lock_settled_def)
  have q: "queued (events sb) = [n ..< n + m]"
    using inv_events(1)[OF invb] p by (simp del: take_upt drop_upt)
  have g: "granted (events sb) = take k [n ..< n + m]"
    using inv_events(2)[OF invb] gwb p by (simp del: take_upt)
  show ?thesis
    using q g p by (simp add: run n_def m_def del: take_upt)
qed

text \<open>
  Claim C7. Start from any state in which the lock's queue is empty, and let any
  sequence of acquires, releases and wakeups run. Then, at every point:
  \<^item> the waiter futures that releases have resolved (the grants), in the order in which
    they were resolved, are a prefix of the waiter futures on which callers were
    suspended, in the order of their acquires: the lock is granted in exactly the order
    of the acquires, never out of order, and no waiter is granted twice (every waiter
    future is queued once);
  \<^item> the callers that have been resumed holding the lock are, in order, a prefix of the
    grants;
  \<^item> at most one waiter is in the granted state (resolved and not yet resumed);
  \<^item> releases do grant: when the lock is held and some queued waiter has no grant yet,
    the next release grants exactly the oldest such waiter, and when a waiter has been
    granted and not yet resumed, the next wakeup resumes exactly that waiter, which then
    holds the lock.
  Since the sequence of operations is arbitrary, this holds after every prefix of it.
  In particular, for \<open>N\<close> acquires followed by \<open>k\<close> releases (each followed by the wakeup
  of the caller it granted): the callers that end up suspended are queued on
  consecutive new futures in the order of their acquires (all \<open>N\<close> callers if the lock
  was held, all but the first, which takes the free lock, otherwise), and the \<open>k\<close>
  releases grant, and let enter, exactly the first \<open>k\<close> of them, in that order.
\<close>

theorem Lock_grants_fifo:
  assumes "waiters (write_lock (wld l)) = []"
  shows "prefix (granted (events (lock_sim_run l ops))) (queued (events (lock_sim_run l ops)))
       \<and> prefix (entered (events (lock_sim_run l ops))) (granted (events (lock_sim_run l ops)))
       \<and> distinct (queued (events (lock_sim_run l ops)))
       \<and> length (granted_waiters (wld (sim_loop (lock_sim_run l ops)))) \<le> 1
       \<and> (locked (write_lock (wld (sim_loop (lock_sim_run l ops))))
            \<and> length (granted (events (lock_sim_run l ops)))
                < length (queued (events (lock_sim_run l ops))) \<longrightarrow>
          granted (events (lock_sim_run l (ops @ [OpRelease])))
            = granted (events (lock_sim_run l ops))
              @ [queued (events (lock_sim_run l ops)) ! length (granted (events (lock_sim_run l ops)))])
       \<and> (length (entered (events (lock_sim_run l ops)))
            < length (granted (events (lock_sim_run l ops))) \<longrightarrow>
          entered (events (lock_sim_run l (ops @ [OpWakeup])))
            = entered (events (lock_sim_run l ops))
              @ [granted (events (lock_sim_run l ops)) ! length (entered (events (lock_sim_run l ops)))]
          \<and> locked (write_lock (wld (sim_loop (lock_sim_run l (ops @ [OpWakeup]))))))
       \<and> queued (events (lock_sim_run l
            (replicate N OpAcquire @ concat (replicate k [OpRelease, OpWakeup]))))
           = [length (futures (wld l)) ..<
                length (futures (wld l)) + (if locked (write_lock (wld l)) then N else N - 1)]
       \<and> granted (events (lock_sim_run l
            (replicate N OpAcquire @ concat (replicate k [OpRelease, OpWakeup]))))
           = take k (queued (events (lock_sim_run l
               (replicate N OpAcquire @ concat (replicate k [OpRelease, OpWakeup])))))
       \<and> entered (events (lock_sim_run l
            (replicate N OpAcquire @ concat (replicate k [OpRelease, OpWakeup]))))
           = take k (queued (events (lock_sim_run l
               (replicate N OpAcquire @ concat (replicate k [OpRelease, OpWakeup])))))"
proof -
  define s where "s = lock_sim_run l ops"
  have inv: "lock_inv s"
    unfolding s_def by (rule lock_inv_run[OF assms])
  define w where "w = wld (sim_loop s)"
  define ws where "ws = waiters (write_lock w)"
  have q: "queued (events s) = entered (events s) @ ws"
    and g: "granted (events s) = entered (events s) @ granted_waiters w"
    and d0: "distinct (entered (events s) @ ws)"
    using inv by (simp_all add: lock_inv_def Let_def w_def ws_def)
  have d: "distinct (queued (events s))"
    using d0 by (simp only: q)
  have le: "length (granted_waiters w) \<le> 1"
    using lock_inv_granted_le_one[OF inv] by (simp add: w_def)
  have pend: "\<forall>f \<in> set (tl ws). fut_state w f = Pending"
    using inv by (cases ws) (auto simp add: lock_inv_def Let_def w_def ws_def split: if_splits)
  then have "filter (is_done w) (tl ws) = []"
    by (auto simp add: filter_empty_conv is_done_def)
  then have "prefix (filter (is_done w) ws) ws"
    by (cases ws) auto
  then have "prefix (granted_waiters w) ws"
    by (simp add: granted_waiters_def ws_def)
  then have p1: "prefix (granted (events s)) (queued (events s))"
    by (simp add: q g)
  have p2: "prefix (entered (events s)) (granted (events s))"
    by (simp add: g)
  have safety: "prefix (granted (events s)) (queued (events s))
       \<and> prefix (entered (events s)) (granted (events s))
       \<and> distinct (queued (events s))
       \<and> length (granted_waiters (wld (sim_loop s))) \<le> 1"
    using p1 p2 d le by (simp add: w_def)
  have rel: "locked (write_lock (wld (sim_loop s)))
            \<and> length (granted (events s)) < length (queued (events s)) \<longrightarrow>
          granted (events (lock_sim_run l (ops @ [OpRelease])))
            = granted (events s) @ [queued (events s) ! length (granted (events s))]"
    using release_progress[OF inv] by (simp only: lock_sim_run_snoc s_def[symmetric]) blast
  have wak: "length (entered (events s)) < length (granted (events s)) \<longrightarrow>
          entered (events (lock_sim_run l (ops @ [OpWakeup])))
            = entered (events s) @ [granted (events s) ! length (entered (events s))]
          \<and> locked (write_lock (wld (sim_loop (lock_sim_run l (ops @ [OpWakeup])))))"
    using wakeup_progress[OF inv] by (simp only: lock_sim_run_snoc s_def[symmetric]) blast
  show ?thesis
    using safety rel wak acquires_then_releases[OF assms, of N k]
    by (simp only: s_def simp_thms)
qed

text \<open>
  Three callers and three releases: the first caller takes the free lock, the next two
  are queued on the futures 0 and 1, and the releases grant 0, then 1.
\<close>

lemma lock_sim_example:
  "events (lock_sim_run started_loop
      [OpAcquire, OpAcquire, OpAcquire, OpRelease, OpWakeup, OpRelease, OpWakeup, OpRelease])
     = [EvAcquired, EvQueued 0, EvQueued 1, EvGranted 0, EvEntered 0, EvGranted 1, EvEntered 1]"
  by code_simp

lemma lock_sim_example_steps:
  "events (lock_sim_run started_loop [OpAcquire, OpAcquire, OpAcquire])
     = [EvAcquired, EvQueued 0, EvQueued 1]
   \<and> locked (write_lock (wld (sim_loop (lock_sim_run started_loop [OpAcquire, OpAcquire, OpAcquire]))))
   \<and> events (lock_sim_run started_loop [OpAcquire, OpAcquire, OpAcquire, OpRelease])
     = [EvAcquired, EvQueued 0, EvQueued 1, EvGranted 0]
   \<and> length (futures (wld started_loop)) = 0
   \<and> \<not> locked (write_lock (wld started_loop))"
  by code_simp

theorem Lock_grants_fifo_witness:
  "waiters (write_lock (wld started_loop)) = []
   \<and> queued (events (lock_sim_run started_loop
        [OpAcquire, OpAcquire, OpAcquire, OpRelease, OpWakeup, OpRelease, OpWakeup, OpRelease]))
       = [0, 1]
   \<and> prefix
        (granted (events (lock_sim_run started_loop
           [OpAcquire, OpAcquire, OpAcquire, OpRelease, OpWakeup, OpRelease, OpWakeup, OpRelease])))
        [0, 1]
   \<and> length (granted_waiters (wld (sim_loop (lock_sim_run started_loop
        [OpAcquire, OpAcquire, OpAcquire, OpRelease, OpWakeup, OpRelease, OpWakeup, OpRelease]))))
       \<le> 1
   \<and> locked (write_lock (wld (sim_loop (lock_sim_run started_loop [OpAcquire, OpAcquire, OpAcquire]))))
   \<and> length (granted (events (lock_sim_run started_loop [OpAcquire, OpAcquire, OpAcquire])))
       < length (queued (events (lock_sim_run started_loop [OpAcquire, OpAcquire, OpAcquire])))
   \<and> granted (events (lock_sim_run started_loop [OpAcquire, OpAcquire, OpAcquire, OpRelease])) = [0]
   \<and> length (entered (events (lock_sim_run started_loop [OpAcquire, OpAcquire, OpAcquire, OpRelease])))
       < length (granted (events (lock_sim_run started_loop [OpAcquire, OpAcquire, OpAcquire, OpRelease])))
   \<and> entered (events (lock_sim_run started_loop
        [OpAcquire, OpAcquire, OpAcquire, OpRelease, OpWakeup])) = [0]
   \<and> locked (write_lock (wld (sim_loop (lock_sim_run started_loop
        [OpAcquire, OpAcquire, OpAcquire, OpRelease, OpWakeup]))))
   \<and> queued (events (lock_sim_run started_loop
        (replicate 3 OpAcquire @ concat (replicate 2 [OpRelease, OpWakeup])))) = [0, 1]
   \<and> granted (events (lock_sim_run started_loop
        (replicate 3 OpAcquire @ concat (replicate 2 [OpRelease, OpWakeup])))) = [0, 1]
   \<and> entered (events (lock_sim_run started_loop
        (replicate 3 OpAcquire @ concat (replicate 2 [OpRelease, OpWakeup])))) = [0, 1]"
proof -
  have h: "waiters (write_lock (wld started_loop)) = []"
    by (simp add: started_loop_def log_def initial_world_def)
  have a: "prefix
        (granted (events (lock_sim_run started_loop
           [OpAcquire, OpAcquire, OpAcquire, OpRelease, OpWakeup, OpRelease, OpWakeup, OpRelease])))
        (queued (events (lock_sim_run started_loop
           [OpAcquire, OpAcquire, OpAcquire, OpRelease, OpWakeup, OpRelease, OpWakeup, OpRelease])))
     \<and> length (granted_waiters (wld (sim_loop (lock_sim_run started_loop
        [OpAcquire, OpAcquire, OpAcquire, OpRelease, OpWakeup, OpRelease, OpWakeup, OpRelease]))))
       \<le> 1"
    using Lock_grants_fifo[OF h,
        of "[OpAcquire, OpAcquire, OpAcquire, OpRelease, OpWakeup, OpRelease, OpWakeup, OpRelease]"]
    by blast
  have b: "granted (events (lock_sim_run started_loop ([OpAcquire, OpAcquire, OpAcquire] @ [OpRelease])))
             = [0]"
    using Lock_grants_fifo[OF h, of "[OpAcquire, OpAcquire, OpAcquire]"] lock_sim_example_steps
    by simp
  have c: "entered (events (lock_sim_run started_loop
             ([OpAcquire, OpAcquire, OpAcquire, OpRelease] @ [OpWakeup]))) = [0]
     \<and> locked (write_lock (wld (sim_loop (lock_sim_run started_loop
             ([OpAcquire, OpAcquire, OpAcquire, OpRelease] @ [OpWakeup])))))"
    using Lock_grants_fifo[OF h, of "[OpAcquire, OpAcquire, OpAcquire, OpRelease]"]
      lock_sim_example_steps
    by simp
  have d: "queued (events (lock_sim_run started_loop
        (replicate 3 OpAcquire @ concat (replicate 2 [OpRelease, OpWakeup])))) = [0, 1]
   \<and> granted (events (lock_sim_run started_loop
        (replicate 3 OpAcquire @ concat (replicate 2 [OpRelease, OpWakeup])))) = [0, 1]
   \<and> entered (events (lock_sim_run started_loop
        (replicate 3 OpAcquire @ concat (replicate 2 [OpRelease, OpWakeup])))) = [0, 1]"
    using Lock_grants_fifo[OF h, of "[]" 3 2] lock_sim_example_steps
    by simp
  show ?thesis
    using h a b c d lock_sim_example lock_sim_example_steps by simp
qed

section \<open>A future is settled once\<close>

lemma settle_settled:
  "fut_state w f \<noteq> Pending \<Longrightarrow> apply_settle_call f c w = (Inl InvalidStateError, w)"
  by (cases c) (simp_all add: set_result_def set_exception_def settle_def)

lemma settle_calls_settled:
  "fut_state w f \<noteq> Pending \<Longrightarrow>
     apply_settle_calls f cs w = (replicate (length cs) (Inl InvalidStateError), w)"
  by (induction cs) (simp_all add: settle_settled)

lemma settle_first:
  assumes "f < length (futures w)" "fut_state w f = Pending"
  shows "fst (apply_settle_call f c w) = Inr ()"
    and "fut_state (snd (apply_settle_call f c w)) f = settled_as c"
  using assms
  by (cases c; simp add: set_result_def set_exception_def settle_pending)+

text \<open>
  Claim C8. (\<open>CallSetResult\<close> is the specification's resolve, \<open>CallSetException\<close> its
  fail, and \<open>InvalidStateError\<close> its AlreadyResolved.) A call of resolve or fail on a
  future that is already settled fails with \<open>InvalidStateError\<close> and leaves the whole
  state, hence the future, unchanged. For a pending future and any sequence of calls of
  resolve and fail, the first call succeeds and takes the future from Pending to
  Resolved or Failed, and every later call fails with \<open>InvalidStateError\<close>: the future
  keeps the state that the first call gave it, and the state after all the calls is the
  state after the first.
\<close>

theorem Future_settles_once:
  "(fut_state w f \<noteq> Pending \<longrightarrow> apply_settle_call f c w = (Inl InvalidStateError, w))
   \<and> (f < length (futures w) \<and> fut_state w f = Pending \<longrightarrow>
        apply_settle_calls f (c # cs) w
          = (Inr () # replicate (length cs) (Inl InvalidStateError), snd (apply_settle_call f c w))
        \<and> fut_state (snd (apply_settle_call f c w)) f = settled_as c
        \<and> fut_state (snd (apply_settle_calls f (c # cs) w)) f = settled_as c)"
proof (intro conjI impI)
  assume "fut_state w f \<noteq> Pending"
  then show "apply_settle_call f c w = (Inl InvalidStateError, w)"
    by (rule settle_settled)
next
  assume a: "f < length (futures w) \<and> fut_state w f = Pending"
  obtain r w1 where c1: "apply_settle_call f c w = (r, w1)"
    by (cases "apply_settle_call f c w")
  have r: "r = Inr ()" and s: "fut_state w1 f = settled_as c"
    using settle_first[of f w c] a c1 by simp_all
  have nd: "fut_state w1 f \<noteq> Pending"
    using s by (cases c) simp_all
  have rest: "apply_settle_calls f cs w1 = (replicate (length cs) (Inl InvalidStateError), w1)"
    by (rule settle_calls_settled[OF nd])
  show "apply_settle_calls f (c # cs) w
          = (Inr () # replicate (length cs) (Inl InvalidStateError), snd (apply_settle_call f c w))"
    by (simp add: c1 r rest)
  show "fut_state (snd (apply_settle_call f c w)) f = settled_as c"
    by (simp add: c1 s)
  show "fut_state (snd (apply_settle_calls f (c # cs) w)) f = settled_as c"
    by (simp add: c1 rest s)
qed

theorem Future_settles_once_witness:
  "0 < length (futures (wld pending_loop)) \<and> fut_state (wld pending_loop) 0 = Pending
   \<and> fst (apply_settle_calls 0
        [CallSetResult (VStr ''a''), CallSetException (Exception ''boom''), CallSetResult VNone]
        (wld pending_loop))
       = [Inr (), Inl InvalidStateError, Inl InvalidStateError]
   \<and> fut_state (snd (apply_settle_calls 0
        [CallSetResult (VStr ''a''), CallSetException (Exception ''boom''), CallSetResult VNone]
        (wld pending_loop))) 0
       = Resolved (VStr ''a'')
   \<and> fut_state (wld (resolve_first pending_loop)) 0 \<noteq> Pending
   \<and> apply_settle_call 0 (CallSetException (Exception ''boom'')) (wld (resolve_first pending_loop))
       = (Inl InvalidStateError, wld (resolve_first pending_loop))"
proof -
  have h1: "0 < length (futures (wld pending_loop)) \<and> fut_state (wld pending_loop) 0 = Pending"
    by (simp add: pending_loop_def started_loop_def log_def initial_world_def create_future_def
          fut_state_def get_future_def)
  have h2: "fut_state (wld (resolve_first pending_loop)) 0 \<noteq> Pending"
    by (simp add: resolve_first_def pending_loop_def started_loop_def log_def initial_world_def
          create_future_def set_result_def settle_def fut_state_def get_future_def
          schedule_callbacks_def put_future_def)
  show ?thesis
    using h1 h2
      Future_settles_once[of "wld pending_loop" 0 "CallSetResult (VStr ''a'')"
        "[CallSetException (Exception ''boom''), CallSetResult VNone]"]
      Future_settles_once[of "wld (resolve_first pending_loop)" 0
        "CallSetException (Exception ''boom'')" "[]"]
    by simp
qed

section \<open>The timed wait starts when it is created\<close>

lemmas world_ops = create_future_def call_soon_def call_later_def settle_def set_result_def
  set_exception_def schedule_callbacks_def put_future_def get_future_def fut_state_def is_done_def
  add_done_callback_def async_sleep_def time_sleep_def

lemma sleep_then_work_run:
  "end_time (run_main 3 (sleep_then_work t d) (initial_world\<lparr>now := T\<rparr>))
     = Some (max (T + d) (T + t))"
  by (simp add: end_time_def numeral_3_eq_3 run_main_def create_task_def run_once_def
        task_step_def task_wakeup_def wakeup_resume_def start_def world_ops sleep_then_work_def
        call_def initial_world_def step_Sync Future_await_def Future_result_def Let_def
        del: step.simps(4))

text \<open>
  Claim C9. For every duration \<open>t\<close>, \<open>async_sleep t\<close> registers its timer before it
  returns its future: the deadline is the clock at the time of the call plus \<open>t\<close>, the
  future returned is pending, and the call itself takes no time. The delay therefore
  runs while the caller works: a coroutine that creates the timed wait at time \<open>T\<close>,
  then blocks for \<open>d\<close> time-units and only then awaits the future, ends at time
  \<open>T + max t d\<close>. After at least \<open>t\<close> time-units of work (\<open>t \<le> d\<close>) this is
  \<open>T + d\<close>: the await completes without further waiting. (Had the delay started at the
  await, the end would be \<open>T + d + t\<close>.)
\<close>

theorem async_sleep_deadline_at_call_time:
  "fst (async_sleep t w) = Inr (length (futures w))
   \<and> timers (snd (async_sleep t w))
       = insert_timer (now w + t, SetResult (length (futures w)) VNone) (timers w)
   \<and> fut_state (snd (async_sleep t w)) (length (futures w)) = Pending
   \<and> now (snd (async_sleep t w)) = now w
   \<and> end_time (run_main 3 (sleep_then_work t d) (initial_world\<lparr>now := T\<rparr>)) = Some (T + max t d)"
proof -
  have a: "fst (async_sleep t w) = Inr (length (futures w))
   \<and> timers (snd (async_sleep t w))
       = insert_timer (now w + t, SetResult (length (futures w)) VNone) (timers w)
   \<and> fut_state (snd (async_sleep t w)) (length (futures w)) = Pending
   \<and> now (snd (async_sleep t w)) = now w"
    by (simp add: async_sleep_def create_future_def call_later_def fut_state_def get_future_def)
  have m: "max (T + d) (T + t) = T + max t d"
    by (simp add: max_def)
  show ?thesis
    using a sleep_then_work_run[of t d T] by (simp only: m simp_thms)
qed

section \<open>The locked write acquires the lock when it is first driven\<close>

lemma os_async_write_locked_keeps:
  "write_lock (snd (os_async_write i True w)) = write_lock w
   \<and> futures (snd (os_async_write i True w)) = futures w
   \<and> timers (snd (os_async_write i True w)) = timers w
   \<and> ready (snd (os_async_write i True w)) = ready w"
  by (simp add: os_async_write_def seq_def ret_def log_def Let_def split: option.splits)

lemma os_async_write_locked_result:
  "(case logstart w of
      None \<Rightarrow> isl (fst (os_async_write i True w))
    | Some s \<Rightarrow> fst (os_async_write i True w)
                 = Inr (Coro (wait_for_write_locked True (Coro Lock_acquire))))"
  by (simp add: os_async_write_def seq_def ret_def log_def Let_def split: option.splits)

lemma step_locked_write:
  "write_lock (wld (snd (step (wait_for_write_locked True (Coro Lock_acquire)) l)))
     = (if \<not> locked (write_lock (wld l)) \<and> waiters (write_lock (wld l)) = []
        then \<lparr>locked = True, waiters = []\<rparr>
        else (write_lock (wld l))\<lparr>waiters := waiters (write_lock (wld l)) @ [length (futures (wld l))]\<rparr>)"
proof (cases "\<not> locked (write_lock (wld l)) \<and> waiters (write_lock (wld l)) = []")
  case True
  then show ?thesis
    by (simp add: wait_for_write_locked_def Lock_acquire_def step_Sync call_def async_sleep_def
          create_future_def call_later_def Future_await_def is_done_def fut_state_def
          get_future_def set_lock_def WRITE_TIME_def del: step.simps(4))
next
  case False
  have nd: "\<not> is_done (snd (create_future (wld l))) (length (futures (wld l)))"
    by (simp add: is_done_def create_future_def fut_state_def get_future_def)
  show ?thesis
    using False nd
    by (auto simp add: wait_for_write_locked_def Lock_acquire_def step_Sync Future_await_def
          Let_def case_prod_beta simp del: step.simps(4))
qed

text \<open>
  Claim C10, counterexample. Two locked writes are requested, write 0 first and write 1
  second. After both calls of \<^verbatim>\<open>os_async_write(i, lock=True)\<close> the lock is still free
  and its queue is empty: no acquire has been performed at call time. When the awaitable
  of write 1 is driven first, write 1 takes the lock and starts its timed write
  (it is suspended on its sleep future 0); the awaitable of write 0, driven next, finds
  the lock held and is queued (suspended on the waiter future 1). The lock is granted
  in the order in which the awaitables are first driven, not in the order of the calls.
\<close>

theorem os_async_write_acquires_at_call_counterexample:
  "write_lock (snd second_locked_write) = \<lparr>locked = False, waiters = []\<rparr>
   \<and> observe (fst second_driven) = Inl (Some 0)
   \<and> write_lock (wld (snd second_driven)) = \<lparr>locked = True, waiters = []\<rparr>
   \<and> timers (wld (snd second_driven)) = [(1, SetResult 0 VNone)]
   \<and> observe (fst first_driven) = Inl (Some 1)
   \<and> write_lock (wld (snd first_driven)) = \<lparr>locked = True, waiters = [1]\<rparr>
   \<and> timers (wld (snd first_driven)) = [(1, SetResult 0 VNone)]"
  by code_simp

subsection \<open>Locked writes driven by tasks\<close>

text \<open>
  One step of the code of a locked write, from its start and from each of its two
  suspension points.
\<close>

lemma step_bind:
  "step (bind c K) l =
     (case step c l of
        (Suspended y k, l') \<Rightarrow> (Suspended y (\<lambda>r. bind (k r) K), l')
      | (Completed v, l') \<Rightarrow> step (K v) l'
      | (Raised e, l') \<Rightarrow> (Raised e, l'))"
proof (induction c arbitrary: l)
  case (Sync f)
  have "fst (f (wld l)) \<in> Basic_BNFs.fsts (f (wld l))"
    by (cases "f (wld l)") (simp add: fsts.simps)
  then show ?case
    using Sync.IH[of "f (wld l)" "fst (f (wld l))"]
    by (simp add: step_Sync del: step.simps)
next
  case (Spawn c k)
  then show ?case
    by (simp add: split: prod.splits)
qed simp_all

lemma locked_write_eq: "wait_for_write_locked True (Coro Lock_acquire) = bind Lock_acquire (\<lambda>_. write_body)"
  by (simp add: wait_for_write_locked_def write_body_def)

lemma step_write_body:
  "step write_body l =
     (Suspended (Some (length (futures (wld l)))) (sleep_cont (length (futures (wld l)))),
      l\<lparr>wld := call_later WRITE_TIME (SetResult (length (futures (wld l))) VNone)
                 (snd (create_future (wld l)))\<rparr>)"
  by (simp add: write_body_def call_def step_Sync async_sleep_def Let_def case_prod_beta
        Future_await_def sleep_cont_def fun_eq_iff is_done_def fut_state_def get_future_def
        create_future_def call_later_def
        split: resume.splits del: step.simps(4))

lemma step_locked_write_free:
  assumes "\<not> locked (write_lock (wld l))" "waiters (write_lock (wld l)) = []"
  shows "step (wait_for_write_locked True (Coro Lock_acquire)) l =
     (Suspended (Some (length (futures (wld l)))) (sleep_cont (length (futures (wld l)))),
      l\<lparr>wld := call_later WRITE_TIME (SetResult (length (futures (wld l))) VNone)
                 (snd (create_future (set_lock ((write_lock (wld l))\<lparr>locked := True\<rparr>) (wld l))))\<rparr>)"
  using assms
  by (simp add: locked_write_eq step_bind step_Lock_acquire_free step_write_body)

lemma step_locked_write_wait:
  assumes "locked (write_lock (wld l)) \<or> waiters (write_lock (wld l)) \<noteq> []"
  shows "step (wait_for_write_locked True (Coro Lock_acquire)) l =
     (Suspended (Some (length (futures (wld l)))) (waiter_cont (length (futures (wld l)))),
      l\<lparr>wld := set_lock ((write_lock (wld l))\<lparr>waiters := waiters (write_lock (wld l)) @ [length (futures (wld l))]\<rparr>)
                  (snd (create_future (wld l)))\<rparr>)"
  using assms
  by (simp add: locked_write_eq step_bind step_Lock_acquire_wait waiter_cont_def fun_eq_iff)

lemma step_waiter_cont:
  assumes "fut_state (wld l) f = Resolved v"
  shows "step (waiter_cont f Send) l =
     step write_body
       (l\<lparr>wld := set_lock ((write_lock (wld l))\<lparr>waiters := remove1 f (waiters (write_lock (wld l))), locked := True\<rparr>) (wld l)\<rparr>)"
  using assms
  by (simp add: waiter_cont_def step_bind step_acquire_cont)

lemma step_sleep_cont:
  assumes "fut_state (wld l) f = Resolved v" "locked (write_lock (wld l))"
  shows "step (sleep_cont f Send) l =
     (Completed VNone,
      l\<lparr>wld := Lock_wake_up_first (set_lock ((write_lock (wld l))\<lparr>locked := False\<rparr>) (wld l))\<rparr>)"
  using assms
  by (simp add: sleep_cont_def Future_result_def step_Sync call_def Lock_release_def
        del: step.simps(4))

text \<open>
  The iterations of the loop while it runs the tasks of \<open>m\<close> locked writes: the timer of
  the holder fires (\<open>holding_fired\<close>), the holder finishes, releases the lock and the
  release resolves the waiter future at the head of the queue (\<open>fired_granted\<close>), the
  granted task is resumed, takes the lock and starts its timed write
  (\<open>granted_holding\<close>).
\<close>

lemma future_upd:
  "(x::future)\<lparr>state := s, callbacks := c\<rparr> = \<lparr>state = s, callbacks = c\<rparr>"
  "(x::future)\<lparr>callbacks := c\<rparr> = \<lparr>state = state x, callbacks = c\<rparr>"
  "(x::future)\<lparr>state := s\<rparr> = \<lparr>state = s, callbacks = callbacks x\<rparr>"
  by (cases x; simp)+

lemma run_once_timer:
  assumes "ready (wld l) = []" "timers (wld l) = [(d, SetResult f v)]"
    "f < length (futures (wld l))" "state (futures (wld l) ! f) = Pending"
  shows "run_once l = l\<lparr>wld := (wld l)\<lparr>now := max (now (wld l)) d, timers := [],
           ready := callbacks (futures (wld l) ! f),
           futures := (futures (wld l))[f := \<lparr>state = Resolved v, callbacks = []\<rparr>]\<rparr>\<rparr>"
  using assms
  by (simp add: run_once_def Let_def world_ops future_upd)

lemma holding_fired:
  assumes "writes_holding n m j sf l"
  shows "writes_fired n m j sf (run_once l)"
proof -
  obtain d where t: "timers (wld l) = [(d, SetResult sf VNone)]"
    using assms by (cases "timers (wld l)") (auto simp add: writes_holding_def)
  have r: "run_once l = l\<lparr>wld := (wld l)\<lparr>now := max (now (wld l)) d, timers := [],
           ready := callbacks (futures (wld l) ! sf),
           futures := (futures (wld l))[sf := \<lparr>state = Resolved VNone, callbacks = []\<rparr>]\<rparr>\<rparr>"
    using assms t by (intro run_once_timer) (simp_all add: writes_holding_def)
  show ?thesis
    using assms
    by (auto simp add: r writes_holding_def writes_fired_def writes_rest_def nth_list_update)
qed

lemma run_once_wakeup:
  assumes "ready (wld l) = [TaskWakeup t f]" "timers (wld l) = []"
  shows "run_once l = task_wakeup t f (l\<lparr>wld := (wld l)\<lparr>timers := [], ready := []\<rparr>\<rparr>)"
  using assms by (simp add: run_once_def Let_def)

lemma task_wakeup_holder:
  assumes "tasks l t = Some (sleep_cont f)" "fut_state (wld l) f = Resolved v"
    "locked (write_lock (wld l))"
  shows "task_wakeup t f l =
     l\<lparr>wld := snd (set_result t VNone
                (Lock_wake_up_first (set_lock ((write_lock (wld l))\<lparr>locked := False\<rparr>) (wld l)))),
       tasks := (tasks l)(t := None)\<rparr>"
  using assms
  by (simp add: task_wakeup_def task_step_def wakeup_resume_def step_sleep_cont)

lemma writes_rest_waiter:
  assumes "writes_rest n m j u l" "j < i" "i < u"
  shows "futures (wld l) ! (n + m + i)
           = \<lparr>state = Pending, callbacks = [TaskWakeup (n + i) (n + m + i)]\<rparr>"
    and "tasks l (n + i) = Some (waiter_cont (n + m + i))"
  using assms by (simp_all add: writes_rest_def)

lemma writes_rest_task:
  assumes "writes_rest n m j u l" "j \<le> i" "i < m"
  shows "futures (wld l) ! (n + i) = \<lparr>state = Pending, callbacks = []\<rparr>"
  using assms by (simp add: writes_rest_def)

lemma writes_rest_done:
  assumes "writes_rest n m j u l" "i < j"
  shows "state (futures (wld l) ! (n + i)) \<noteq> Pending"
  using assms by (simp add: writes_rest_def)

lemma writes_restI:
  assumes "\<And>i. j < i \<Longrightarrow> i < u \<Longrightarrow> futures (wld l) ! (n + m + i)
           = \<lparr>state = Pending, callbacks = [TaskWakeup (n + i) (n + m + i)]\<rparr>"
    and "\<And>i. j < i \<Longrightarrow> i < u \<Longrightarrow> tasks l (n + i) = Some (waiter_cont (n + m + i))"
    and "\<And>i. j \<le> i \<Longrightarrow> i < m \<Longrightarrow> futures (wld l) ! (n + i) = \<lparr>state = Pending, callbacks = []\<rparr>"
    and "\<And>i. i < j \<Longrightarrow> state (futures (wld l) ! (n + i)) \<noteq> Pending"
  shows "writes_rest n m j u l"
  using assms by (simp add: writes_rest_def)

lemma fired_granted_last:
  assumes f: "writes_fired n m j sf l" and last: "Suc j = m"
  shows "writes_granted n m (Suc j) (run_once l)"
proof -
  have rest: "writes_rest n m j m l"
    and len: "n + 2 * m \<le> length (futures (wld l))" "sf < length (futures (wld l))"
    and sf: "sf = n + m + j \<or> n + 2 * m \<le> sf"
    and rd: "ready (wld l) = [TaskWakeup (n + j) sf]" and tm: "timers (wld l) = []"
    and lk: "write_lock (wld l) = \<lparr>locked = True, waiters = map (\<lambda>i. n + m + i) [Suc j..<m]\<rparr>"
    and fs: "futures (wld l) ! sf = \<lparr>state = Resolved VNone, callbacks = []\<rparr>"
    and tk: "tasks l (n + j) = Some (sleep_cont sf)"
    using f by (simp_all add: writes_fired_def)
  define l1 where "l1 = l\<lparr>wld := (wld l)\<lparr>timers := [], ready := []\<rparr>\<rparr>"
  have r: "run_once l = task_wakeup (n + j) sf l1"
    using rd tm by (simp add: l1_def run_once_wakeup)
  have s: "fut_state (wld l1) sf = Resolved VNone"
    using fs len by (simp add: l1_def fut_state_def get_future_def)
  have t: "task_wakeup (n + j) sf l1 =
     l1\<lparr>wld := snd (set_result (n + j) VNone
                (Lock_wake_up_first (set_lock ((write_lock (wld l1))\<lparr>locked := False\<rparr>) (wld l1)))),
       tasks := (tasks l1)(n + j := None)\<rparr>"
    using s tk lk by (intro task_wakeup_holder) (simp_all add: l1_def)
  have p: "futures (wld l) ! (n + j) = \<lparr>state = Pending, callbacks = []\<rparr>"
    using writes_rest_task[OF rest, of j] last by simp
  have pl: "n + j < length (futures (wld l))"
    using len last by simp
  have e: "run_once l = l\<lparr>wld := (wld l)\<lparr>timers := [], ready := [],
          write_lock := \<lparr>locked = False, waiters = []\<rparr>,
          futures := (futures (wld l))[n + j := \<lparr>state = Resolved VNone, callbacks = []\<rparr>]\<rparr>,
        tasks := (tasks l)(n + j := None)\<rparr>"
    using p pl lk last
    by (simp add: r t) (simp add: l1_def Lock_wake_up_first_def set_lock_def world_ops future_upd)
  have rest': "writes_rest n m (Suc j) m (run_once l)"
  proof (rule writes_restI)
    fix i assume "i < Suc j"
    then show "state (futures (wld (run_once l)) ! (n + i)) \<noteq> Pending"
      using writes_rest_done[OF rest, of i] pl
      by (cases "i = j") (simp_all add: e)
  qed (use last in simp_all)
  show ?thesis
    using rest' last len
    by (simp add: writes_granted_def) (simp add: e)
qed

lemma fired_granted_next:
  assumes f: "writes_fired n m j sf l" and nxt: "Suc j < m"
  shows "writes_granted n m (Suc j) (run_once l)"
proof -
  have rest: "writes_rest n m j m l"
    and len: "n + 2 * m \<le> length (futures (wld l))" "sf < length (futures (wld l))"
    and sf: "sf = n + m + j \<or> n + 2 * m \<le> sf"
    and rd: "ready (wld l) = [TaskWakeup (n + j) sf]" and tm: "timers (wld l) = []"
    and lk: "write_lock (wld l) = \<lparr>locked = True, waiters = map (\<lambda>i. n + m + i) [Suc j..<m]\<rparr>"
    and fs: "futures (wld l) ! sf = \<lparr>state = Resolved VNone, callbacks = []\<rparr>"
    and tk: "tasks l (n + j) = Some (sleep_cont sf)"
    using f by (simp_all add: writes_fired_def)
  define l1 where "l1 = l\<lparr>wld := (wld l)\<lparr>timers := [], ready := []\<rparr>\<rparr>"
  have r: "run_once l = task_wakeup (n + j) sf l1"
    using rd tm by (simp add: l1_def run_once_wakeup)
  have s: "fut_state (wld l1) sf = Resolved VNone"
    using fs len by (simp add: l1_def fut_state_def get_future_def)
  have t: "task_wakeup (n + j) sf l1 =
     l1\<lparr>wld := snd (set_result (n + j) VNone
                (Lock_wake_up_first (set_lock ((write_lock (wld l1))\<lparr>locked := False\<rparr>) (wld l1)))),
       tasks := (tasks l1)(n + j := None)\<rparr>"
    using s tk lk by (intro task_wakeup_holder) (simp_all add: l1_def)
  have p: "futures (wld l) ! (n + j) = \<lparr>state = Pending, callbacks = []\<rparr>"
    using writes_rest_task[OF rest, of j] nxt by simp
  have pl: "n + j < length (futures (wld l))" "n + m + Suc j < length (futures (wld l))"
    using len nxt by simp_all
  have q: "futures (wld l) ! (n + m + Suc j)
             = \<lparr>state = Pending, callbacks = [TaskWakeup (n + Suc j) (n + m + Suc j)]\<rparr>"
    using writes_rest_waiter(1)[OF rest, of "Suc j"] nxt by simp
  have q2: "tasks l (n + Suc j) = Some (waiter_cont (n + m + Suc j))"
    using writes_rest_waiter(2)[OF rest, of "Suc j"] nxt by simp
  have u: "[Suc j..<m] = Suc j # [Suc (Suc j)..<m]"
    using nxt by (simp add: upt_conv_Cons)
  have lk1: "write_lock (wld l) = \<lparr>locked = True, waiters = (n + m + Suc j) # map (\<lambda>i. n + m + i) [Suc (Suc j)..<m]\<rparr>"
    using lk by (simp only: u list.map)
  have w1: "Lock_wake_up_first (set_lock ((write_lock (wld l1))\<lparr>locked := False\<rparr>) (wld l1))
      = (wld l)\<lparr>timers := [], ready := [TaskWakeup (n + Suc j) (n + m + Suc j)],
          write_lock := \<lparr>locked = False, waiters = map (\<lambda>i. n + m + i) [Suc j..<m]\<rparr>,
          futures := (futures (wld l))[n + m + Suc j := \<lparr>state = Resolved (VBool True), callbacks = []\<rparr>]\<rparr>"
    using q pl(2) u
    by (simp add: lk1 l1_def Lock_wake_up_first_def set_lock_def world_ops future_upd)
  have e: "run_once l = l\<lparr>wld := (wld l)\<lparr>timers := [],
          ready := [TaskWakeup (n + Suc j) (n + m + Suc j)],
          write_lock := \<lparr>locked = False, waiters = map (\<lambda>i. n + m + i) [Suc j..<m]\<rparr>,
          futures := (futures (wld l))[n + m + Suc j := \<lparr>state = Resolved (VBool True), callbacks = []\<rparr>,
             n + j := \<lparr>state = Resolved VNone, callbacks = []\<rparr>]\<rparr>,
        tasks := (tasks l)(n + j := None)\<rparr>"
    using p pl
    by (simp add: r t w1) (simp add: l1_def world_ops future_upd)
  have rest': "writes_rest n m (Suc j) m (run_once l)"
  proof (rule writes_restI)
    fix i assume "Suc j < i" "i < m"
    then show "futures (wld (run_once l)) ! (n + m + i)
           = \<lparr>state = Pending, callbacks = [TaskWakeup (n + i) (n + m + i)]\<rparr>"
      using writes_rest_waiter(1)[OF rest, of i] by (simp add: e)
  next
    fix i assume "Suc j < i" "i < m"
    then show "tasks (run_once l) (n + i) = Some (waiter_cont (n + m + i))"
      using writes_rest_waiter(2)[OF rest, of i] by (simp add: e)
  next
    fix i assume "Suc j \<le> i" "i < m"
    then show "futures (wld (run_once l)) ! (n + i) = \<lparr>state = Pending, callbacks = []\<rparr>"
      using writes_rest_task[OF rest, of i] by (simp add: e)
  next
    fix i assume "i < Suc j"
    then show "state (futures (wld (run_once l)) ! (n + i)) \<noteq> Pending"
      using writes_rest_done[OF rest, of i] pl
      by (cases "i = j") (simp_all add: e)
  qed
  have a: "futures (wld (run_once l)) ! (n + m + Suc j) = \<lparr>state = Resolved (VBool True), callbacks = []\<rparr>"
    using pl by (simp add: e)
  have b: "tasks (run_once l) (n + Suc j) = Some (waiter_cont (n + m + Suc j))"
    using q2 by (simp add: e)
  show ?thesis
    using rest' nxt len a b
    by (simp add: writes_granted_def) (simp add: e)
qed

lemma fired_granted:
  assumes "writes_fired n m j sf l"
  shows "writes_granted n m (Suc j) (run_once l)"
proof (cases "Suc j < m")
  case True
  then show ?thesis using assms by (rule fired_granted_next[rotated])
next
  case False
  then have "Suc j = m" using assms by (simp add: writes_fired_def)
  then show ?thesis using assms by (rule fired_granted_last[rotated])
qed

lemma task_wakeup_waiter:
  assumes "tasks l t = Some (waiter_cont f)" "fut_state (wld l) f = Resolved v"
  shows "task_wakeup t f l =
     l\<lparr>wld := add_done_callback (length (futures (wld l))) (TaskWakeup t (length (futures (wld l))))
               (call_later WRITE_TIME (SetResult (length (futures (wld l))) VNone)
                 (snd (create_future
                   (set_lock ((write_lock (wld l))\<lparr>waiters := remove1 f (waiters (write_lock (wld l))),
                      locked := True\<rparr>) (wld l))))),
       tasks := (tasks l)(t \<mapsto> sleep_cont (length (futures (wld l))))\<rparr>"
  using assms
  by (simp add: task_wakeup_def task_step_def wakeup_resume_def step_waiter_cont step_write_body)

lemma granted_holding:
  assumes g: "writes_granted n m j l" and jm: "j < m"
  shows "writes_holding n m j (length (futures (wld l))) (run_once l)"
proof -
  have rest: "writes_rest n m j m l"
    and len: "n + 2 * m \<le> length (futures (wld l))"
    and rd: "ready (wld l) = [TaskWakeup (n + j) (n + m + j)]" and tm: "timers (wld l) = []"
    and lk: "write_lock (wld l) = \<lparr>locked = False, waiters = map (\<lambda>i. n + m + i) [j..<m]\<rparr>"
    and fs: "futures (wld l) ! (n + m + j) = \<lparr>state = Resolved (VBool True), callbacks = []\<rparr>"
    and tk: "tasks l (n + j) = Some (waiter_cont (n + m + j))"
    using g jm by (simp_all add: writes_granted_def)
  define l1 where "l1 = l\<lparr>wld := (wld l)\<lparr>timers := [], ready := []\<rparr>\<rparr>"
  define N where "N = length (futures (wld l))"
  have r: "run_once l = task_wakeup (n + j) (n + m + j) l1"
    using rd tm by (simp add: l1_def run_once_wakeup)
  have s: "fut_state (wld l1) (n + m + j) = Resolved (VBool True)"
    using fs len jm by (simp add: l1_def fut_state_def get_future_def)
  have tk1: "tasks l1 (n + j) = Some (waiter_cont (n + m + j))"
    using tk by (simp add: l1_def)
  have u: "[j..<m] = j # [Suc j..<m]"
    using jm by (simp add: upt_conv_Cons)
  have lk1: "write_lock (wld l) = \<lparr>locked = False, waiters = (n + m + j) # map (\<lambda>i. n + m + i) [Suc j..<m]\<rparr>"
    using lk by (simp only: u list.map)
  have e: "run_once l = l\<lparr>wld := (wld l)\<lparr>timers := [(now (wld l) + WRITE_TIME, SetResult N VNone)],
          ready := [],
          write_lock := \<lparr>locked = True, waiters = map (\<lambda>i. n + m + i) [Suc j..<m]\<rparr>,
          futures := futures (wld l) @ [\<lparr>state = Pending, callbacks = [TaskWakeup (n + j) N]\<rparr>]\<rparr>,
        tasks := (tasks l)(n + j \<mapsto> sleep_cont N)\<rparr>"
    by (simp add: r task_wakeup_waiter[OF tk1 s])
       (simp add: l1_def lk1 N_def set_lock_def world_ops future_upd)
  have rest': "writes_rest n m j m (run_once l)"
  proof (rule writes_restI)
    fix i assume "j < i" "i < m"
    then show "futures (wld (run_once l)) ! (n + m + i)
           = \<lparr>state = Pending, callbacks = [TaskWakeup (n + i) (n + m + i)]\<rparr>"
      using writes_rest_waiter(1)[OF rest, of i] len by (simp add: e nth_append)
  next
    fix i assume "j < i" "i < m"
    then show "tasks (run_once l) (n + i) = Some (waiter_cont (n + m + i))"
      using writes_rest_waiter(2)[OF rest, of i] by (simp add: e)
  next
    fix i assume "j \<le> i" "i < m"
    then show "futures (wld (run_once l)) ! (n + i) = \<lparr>state = Pending, callbacks = []\<rparr>"
      using writes_rest_task[OF rest, of i] len by (simp add: e nth_append)
  next
    fix i assume "i < j"
    then show "state (futures (wld (run_once l)) ! (n + i)) \<noteq> Pending"
      using writes_rest_done[OF rest, of i] len jm by (simp add: e nth_append)
  qed
  show ?thesis
    using rest' jm len
    by (simp add: writes_holding_def N_def[symmetric]) (simp add: e N_def)
qed

lemma granted_idle:
  assumes g: "writes_granted n m m l"
  shows "writes_granted n m m (run_once l)"
proof -
  have rd: "ready (wld l) = []" and tm: "timers (wld l) = []"
    using g by (simp_all add: writes_granted_def)
  have e: "run_once l = l\<lparr>wld := (wld l)\<lparr>timers := [], ready := []\<rparr>\<rparr>"
    using rd tm by (simp add: run_once_def Let_def)
  show ?thesis
    using g by (simp add: writes_granted_def writes_rest_def e)
qed

lemma writes_state_step:
  assumes s: "writes_state n m k l" and k: "0 < k"
  shows "writes_state n m (Suc k) (run_once l)"
proof (cases "m \<le> k div 3")
  case True
  then have "m \<le> Suc k div 3"
    by (simp add: div_le_mono le_trans[OF True])
  then show ?thesis
    using s True granted_idle[of n m l] by (simp add: writes_state_def)
next
  case False
  then have jm: "k div 3 < m" by simp
  consider "k mod 3 = 0" | "k mod 3 = 1" | "k mod 3 = 2"
    by linarith
  then show ?thesis
  proof cases
    case 1
    then have g: "writes_granted n m (k div 3) l"
      using s False by (simp add: writes_state_def)
    have d: "Suc k div 3 = k div 3" "Suc k mod 3 = 1"
      using 1 by presburger+
    show ?thesis
      using granted_holding[OF g jm] jm
      by (auto simp add: writes_state_def d)
  next
    case 2
    then obtain sf where h: "writes_holding n m (k div 3) sf l"
      using s False by (auto simp add: writes_state_def)
    have d: "Suc k div 3 = k div 3" "Suc k mod 3 = 2"
      using 2 by presburger+
    show ?thesis
      using holding_fired[OF h] jm
      by (auto simp add: writes_state_def d)
  next
    case 3
    then obtain sf where h: "writes_fired n m (k div 3) sf l"
      using s False by (auto simp add: writes_state_def)
    have d: "Suc k div 3 = Suc (k div 3)" "Suc k mod 3 = 0"
      using 3 by presburger+
    show ?thesis
    proof (cases "Suc (k div 3) = m")
      case True
      then show ?thesis
        using fired_granted[OF h] by (simp add: writes_state_def d)
    next
      case False
      then have "Suc (k div 3) < m" using jm by simp
      then show ?thesis
        using fired_granted[OF h] by (simp add: writes_state_def d)
    qed
  qed
qed

text \<open>
  The first iteration: the tasks take their first step in the order in which they were
  created. The first one finds the lock free, the others are queued.
\<close>

lemma task_step_first_free:
  assumes "tasks l t = Some (start (wait_for_write_locked True (Coro Lock_acquire)))"
    "\<not> locked (write_lock (wld l))" "waiters (write_lock (wld l)) = []"
  shows "task_step t Send l =
     l\<lparr>wld := add_done_callback (length (futures (wld l))) (TaskWakeup t (length (futures (wld l))))
               (call_later WRITE_TIME (SetResult (length (futures (wld l))) VNone)
                 (snd (create_future (set_lock ((write_lock (wld l))\<lparr>locked := True\<rparr>) (wld l))))),
       tasks := (tasks l)(t \<mapsto> sleep_cont (length (futures (wld l))))\<rparr>"
  using assms
  by (simp add: task_step_def start_def step_locked_write_free)

lemma task_step_first_wait:
  assumes "tasks l t = Some (start (wait_for_write_locked True (Coro Lock_acquire)))"
    "locked (write_lock (wld l))"
  shows "task_step t Send l =
     l\<lparr>wld := add_done_callback (length (futures (wld l))) (TaskWakeup t (length (futures (wld l))))
               (set_lock ((write_lock (wld l))\<lparr>waiters := waiters (write_lock (wld l)) @ [length (futures (wld l))]\<rparr>)
                  (snd (create_future (wld l)))),
       tasks := (tasks l)(t \<mapsto> waiter_cont (length (futures (wld l))))\<rparr>"
  using assms
  by (simp add: task_step_def start_def step_locked_write_wait)

lemma driven_stepping:
  assumes d: "writes_driven n m l" and m: "0 < m"
  shows "writes_stepping n m 1 (task_step n Send (l\<lparr>wld := (wld l)\<lparr>timers := [], ready := []\<rparr>\<rparr>))"
proof -
  define l1 where "l1 = l\<lparr>wld := (wld l)\<lparr>timers := [], ready := []\<rparr>\<rparr>"
  have len: "length (futures (wld l)) = n + m"
    and lk: "write_lock (wld l) = \<lparr>locked = False, waiters = []\<rparr>"
    and all: "\<And>i. i < m \<Longrightarrow> futures (wld l) ! (n + i) = \<lparr>state = Pending, callbacks = []\<rparr>"
    and allt: "\<And>i. i < m \<Longrightarrow> tasks l (n + i) = Some (start (wait_for_write_locked True (Coro Lock_acquire)))"
    using d by (simp_all add: writes_driven_def)
  have tk: "tasks l1 n = Some (start (wait_for_write_locked True (Coro Lock_acquire)))"
    using allt[of 0] m by (simp add: l1_def)
  have fr: "\<not> locked (write_lock (wld l1))" "waiters (write_lock (wld l1)) = []"
    using lk by (simp_all add: l1_def)
  have e: "task_step n Send l1 =
      l\<lparr>wld := (wld l)\<lparr>timers := [(now (wld l) + WRITE_TIME, SetResult (n + m) VNone)],
          ready := [],
          write_lock := \<lparr>locked = True, waiters = []\<rparr>,
          futures := futures (wld l) @ [\<lparr>state = Pending, callbacks = [TaskWakeup n (n + m)]\<rparr>]\<rparr>,
        tasks := (tasks l)(n \<mapsto> sleep_cont (n + m))\<rparr>"
    by (simp add: task_step_first_free[OF tk fr])
       (simp add: l1_def lk len set_lock_def world_ops future_upd nth_append list_update_append)
  have rest': "writes_rest n m 0 1 (task_step n Send l1)"
  proof (rule writes_restI)
    fix i assume "0 \<le> i" "i < m"
    then show "futures (wld (task_step n Send l1)) ! (n + i) = \<lparr>state = Pending, callbacks = []\<rparr>"
      using all[of i] len by (simp add: e nth_append)
  qed simp_all
  have o: "\<And>i. 1 \<le> i \<Longrightarrow> i < m \<Longrightarrow> tasks (task_step n Send l1) (n + i)
        = Some (start (wait_for_write_locked True (Coro Lock_acquire)))"
    using allt by (simp add: e)
  show ?thesis
    unfolding l1_def[symmetric]
    using rest' m len o
    by (simp add: writes_stepping_def) (simp add: e nth_append)
qed

lemma stepping_step:
  assumes s: "writes_stepping n m u l" and um: "u < m"
  shows "writes_stepping n m (Suc u) (task_step (n + u) Send l)"
proof -
  have rest: "writes_rest n m 0 u l"
    and u0: "0 < u"
    and len: "length (futures (wld l)) = n + m + u"
    and rd: "ready (wld l) = []"
    and tm: "timers (wld l) = [(now (wld l) + WRITE_TIME, SetResult (n + m) VNone)]"
    and lk: "write_lock (wld l) = \<lparr>locked = True, waiters = map (\<lambda>i. n + m + i) [1..<u]\<rparr>"
    and fs: "futures (wld l) ! (n + m) = \<lparr>state = Pending, callbacks = [TaskWakeup n (n + m)]\<rparr>"
    and tk: "tasks l n = Some (sleep_cont (n + m))"
    and allt: "\<And>i. u \<le> i \<Longrightarrow> i < m \<Longrightarrow> tasks l (n + i) = Some (start (wait_for_write_locked True (Coro Lock_acquire)))"
    using s by (simp_all add: writes_stepping_def)
  have tku: "tasks l (n + u) = Some (start (wait_for_write_locked True (Coro Lock_acquire)))"
    using allt[of u] um by simp
  have lkd: "locked (write_lock (wld l))"
    using lk by simp
  have up: "map (\<lambda>i. n + m + i) [1..<u] @ [n + m + u] = map (\<lambda>i. n + m + i) [1..<Suc u]"
    using u0 by simp
  have e: "task_step (n + u) Send l =
      l\<lparr>wld := (wld l)\<lparr>
          write_lock := \<lparr>locked = True, waiters = map (\<lambda>i. n + m + i) [1..<Suc u]\<rparr>,
          futures := futures (wld l) @ [\<lparr>state = Pending, callbacks = [TaskWakeup (n + u) (n + m + u)]\<rparr>]\<rparr>,
        tasks := (tasks l)(n + u \<mapsto> waiter_cont (n + m + u))\<rparr>"
    using u0
    by (simp add: task_step_first_wait[OF tku lkd])
       (simp add: lk len set_lock_def world_ops future_upd nth_append list_update_append)
  have rest': "writes_rest n m 0 (Suc u) (task_step (n + u) Send l)"
  proof (rule writes_restI)
    fix i assume "0 < i" "i < Suc u"
    then show "futures (wld (task_step (n + u) Send l)) ! (n + m + i)
           = \<lparr>state = Pending, callbacks = [TaskWakeup (n + i) (n + m + i)]\<rparr>"
      using writes_rest_waiter(1)[OF rest, of i] len
      by (cases "i = u") (simp_all add: e nth_append)
  next
    fix i assume "0 < i" "i < Suc u"
    then show "tasks (task_step (n + u) Send l) (n + i) = Some (waiter_cont (n + m + i))"
      using writes_rest_waiter(2)[OF rest, of i]
      by (cases "i = u") (simp_all add: e)
  next
    fix i assume "0 \<le> i" "i < m"
    then show "futures (wld (task_step (n + u) Send l)) ! (n + i) = \<lparr>state = Pending, callbacks = []\<rparr>"
      using writes_rest_task[OF rest, of i] len by (simp add: e nth_append)
  qed simp
  have a: "futures (wld (task_step (n + u) Send l)) ! (n + m)
      = \<lparr>state = Pending, callbacks = [TaskWakeup n (n + m)]\<rparr>"
    using fs len u0 by (simp add: e nth_append)
  have b: "tasks (task_step (n + u) Send l) n = Some (sleep_cont (n + m))"
    using tk u0 by (simp add: e)
  have o: "\<And>i. Suc u \<le> i \<Longrightarrow> i < m \<Longrightarrow> tasks (task_step (n + u) Send l) (n + i)
        = Some (start (wait_for_write_locked True (Coro Lock_acquire)))"
    using allt by (simp add: e)
  show ?thesis
    using rest' um len a b o rd tm
    by (simp add: writes_stepping_def) (simp add: e)
qed

lemma stepping_all:
  assumes "writes_stepping n m u l"
  shows "writes_stepping n m m (foldl (\<lambda>l t. task_step t Send l) l [n + u..<n + m])"
  using assms
proof (induction "m - u" arbitrary: u l)
  case 0
  then have "u = m" by (simp add: writes_stepping_def)
  then show ?case using 0 by simp
next
  case (Suc x)
  then have um: "u < m" by simp
  have up: "[n + u..<n + m] = (n + u) # [n + Suc u..<n + m]"
    using um by (simp add: upt_conv_Cons)
  have "writes_stepping n m m
     (foldl (\<lambda>l t. task_step t Send l) (task_step (n + u) Send l) [n + Suc u..<n + m])"
    using Suc.hyps(2) by (intro Suc.hyps(1) stepping_step[OF Suc.prems um]) simp
  then show ?case
    by (simp only: up foldl_Cons)
qed

lemma driven_holding:
  assumes d: "writes_driven n m l" and m: "0 < m"
  shows "writes_holding n m 0 (n + m) (run_once l)"
proof -
  have rd: "ready (wld l) = map TaskStep [n..<n + m]" and tm: "timers (wld l) = []"
    using d by (simp_all add: writes_driven_def)
  have up: "[n..<n + m] = n # [n + 1..<n + m]"
    using m by (simp add: upt_conv_Cons)
  have ne: "map TaskStep [n..<n + m] \<noteq> []"
    using m by simp
  have "run_once l = foldl (\<lambda>l cb. run_callback cb l) (l\<lparr>wld := (wld l)\<lparr>timers := [], ready := []\<rparr>\<rparr>)
      (map TaskStep [n..<n + m])"
    using ne by (simp add: run_once_def Let_def rd tm)
  also have "\<dots> = foldl (\<lambda>l t. task_step t Send l) (l\<lparr>wld := (wld l)\<lparr>timers := [], ready := []\<rparr>\<rparr>) [n..<n + m]"
    by (simp add: foldl_map)
  also have "\<dots> = foldl (\<lambda>l t. task_step t Send l)
       (task_step n Send (l\<lparr>wld := (wld l)\<lparr>timers := [], ready := []\<rparr>\<rparr>)) [n + 1..<n + m]"
    by (simp only: up foldl_Cons)
  finally have e: "run_once l = foldl (\<lambda>l t. task_step t Send l)
       (task_step n Send (l\<lparr>wld := (wld l)\<lparr>timers := [], ready := []\<rparr>\<rparr>)) [n + 1..<n + m]" .
  have "writes_stepping n m m (run_once l)"
    unfolding e by (rule stepping_all[OF driven_stepping[OF d m]])
  then show ?thesis
    using m by (simp add: writes_stepping_def writes_holding_def)
qed

lemma driven_state: "writes_driven n m l \<Longrightarrow> 0 < m \<Longrightarrow> writes_state n m 1 (run_once l)"
  using driven_holding[of n m l] by (auto simp add: writes_state_def)

lemma run_loop_state:
  assumes "writes_driven n m l" "0 < m"
  shows "writes_state n m (Suc k) (run_loop (Suc k) l)"
proof (induction k)
  case 0
  show ?case using driven_state[OF assms] by simp
next
  case (Suc k)
  show ?case
    using writes_state_step[OF Suc] by simp
qed

text \<open>The calls and the creation of the tasks.\<close>

lemma call_writes_result:
  assumes "logstart w = Some s"
  shows "fst (call_writes cs w) = map (\<lambda>i. (i, Inr (Coro (wait_for_write_locked True (Coro Lock_acquire))))) cs
       \<and> write_lock (snd (call_writes cs w)) = write_lock w
       \<and> futures (snd (call_writes cs w)) = futures w
       \<and> timers (snd (call_writes cs w)) = timers w
       \<and> ready (snd (call_writes cs w)) = ready w"
  using assms
proof (induction cs arbitrary: w)
  case Nil
  show ?case by simp
next
  case (Cons i cs)
  have r: "fst (os_async_write i True w) = Inr (Coro (wait_for_write_locked True (Coro Lock_acquire)))"
    using os_async_write_locked_result[of i w] Cons.prems by simp
  have ls: "logstart (snd (os_async_write i True w)) = Some s"
    using Cons.prems by (simp add: os_async_write_def seq_def ret_def log_def Let_def)
  show ?case
    using Cons.IH[OF ls] r os_async_write_locked_keeps[of i w]
    by (simp add: case_prod_beta)
qed

lemma call_writes_keeps_lock:
  "write_lock (snd (call_writes cs w)) = write_lock w"
proof (induction cs arbitrary: w)
  case Nil
  show ?case by simp
next
  case (Cons i cs)
  show ?case
    using Cons.IH[of "snd (os_async_write i True w)"] os_async_write_locked_keeps[of i w]
    by (simp add: case_prod_beta)
qed

lemma drive_writes_result:
  assumes "\<forall>d \<in> set ds. map_of rs d = Some (Inr (Coro c))"
  shows "fst (drive_writes ds rs l) = zip ds [length (futures (wld l))..<length (futures (wld l)) + length ds]
       \<and> wld (snd (drive_writes ds rs l)) = (wld l)\<lparr>
            futures := futures (wld l) @ replicate (length ds) \<lparr>state = Pending, callbacks = []\<rparr>,
            ready := ready (wld l) @ map TaskStep [length (futures (wld l))..<length (futures (wld l)) + length ds]\<rparr>
       \<and> (\<forall>i. i < length ds \<longrightarrow> tasks (snd (drive_writes ds rs l)) (length (futures (wld l)) + i) = Some (start c))
       \<and> (\<forall>t. t < length (futures (wld l)) \<longrightarrow> tasks (snd (drive_writes ds rs l)) t = tasks l t)"
  using assms
proof (induction ds arbitrary: l)
  case Nil
  show ?case by simp
next
  case (Cons d ds)
  define N where "N = length (futures (wld l))"
  define l' where "l' = l\<lparr>wld := (wld l)\<lparr>futures := futures (wld l) @ [\<lparr>state = Pending, callbacks = []\<rparr>],
       ready := ready (wld l) @ [TaskStep N]\<rparr>, tasks := (tasks l)(N \<mapsto> start c)\<rparr>"
  have ct: "create_task c l = (N, l')"
    by (simp add: create_task_def create_future_def call_soon_def N_def l'_def)
  have m: "map_of rs d = Some (Inr (Coro c))"
    using Cons.prems by simp
  have dw: "drive_writes (d # ds) rs l =
      ((d, N) # fst (drive_writes ds rs l'), snd (drive_writes ds rs l'))"
    by (simp add: m ct case_prod_beta)
  have N': "length (futures (wld l')) = Suc N"
    by (simp add: l'_def N_def)
  have ih: "fst (drive_writes ds rs l') = zip ds [Suc N..<Suc N + length ds]"
    "wld (snd (drive_writes ds rs l')) = (wld l')\<lparr>
            futures := futures (wld l') @ replicate (length ds) \<lparr>state = Pending, callbacks = []\<rparr>,
            ready := ready (wld l') @ map TaskStep [Suc N..<Suc N + length ds]\<rparr>"
    "\<And>i. i < length ds \<Longrightarrow> tasks (snd (drive_writes ds rs l')) (Suc N + i) = Some (start c)"
    "\<And>t. t < Suc N \<Longrightarrow> tasks (snd (drive_writes ds rs l')) t = tasks l' t"
    using Cons.IH[of l'] Cons.prems by (simp_all add: N')
  have up: "[N..<N + length (d # ds)] = N # [Suc N..<Suc N + length ds]"
    by (subst upt_conv_Cons) simp_all
  have a: "fst (drive_writes (d # ds) rs l) = zip (d # ds) [N..<N + length (d # ds)]"
    unfolding dw up by (simp add: ih(1))
  have b: "wld (snd (drive_writes (d # ds) rs l)) = (wld l)\<lparr>
            futures := futures (wld l) @ replicate (length (d # ds)) \<lparr>state = Pending, callbacks = []\<rparr>,
            ready := ready (wld l) @ map TaskStep [N..<N + length (d # ds)]\<rparr>"
    unfolding dw up by (simp add: ih(2)) (simp add: l'_def)
  have c: "tasks (snd (drive_writes (d # ds) rs l)) (N + i) = Some (start c)" if "i < length (d # ds)" for i
  proof (cases i)
    case 0
    then show ?thesis
      using ih(4)[of N] unfolding dw by (simp add: l'_def)
  next
    case (Suc i')
    then show ?thesis
      using ih(3)[of i'] that unfolding dw by simp
  qed
  have e: "tasks (snd (drive_writes (d # ds) rs l)) t = tasks l t" if "t < N" for t
    using ih(4)[of t] that unfolding dw by (simp add: l'_def)
  show ?case
    using a b c e unfolding N_def by blast
qed

lemma locked_writes_driven:
  assumes ls: "logstart (wld l) \<noteq> None"
    and lk: "write_lock (wld l) = \<lparr>locked = False, waiters = []\<rparr>"
    and rd: "ready (wld l) = []" and tm: "timers (wld l) = []"
    and sub: "set ds \<subseteq> set cs"
  shows "fst (locked_writes cs ds l) = zip ds [length (futures (wld l))..<length (futures (wld l)) + length ds]"
    and "writes_driven (length (futures (wld l))) (length ds) (snd (locked_writes cs ds l))"
proof -
  obtain s where s: "logstart (wld l) = Some s"
    using ls by auto
  define rs where "rs = fst (call_writes cs (wld l))"
  define l0 where "l0 = l\<lparr>wld := snd (call_writes cs (wld l))\<rparr>"
  have rs: "rs = map (\<lambda>i. (i, Inr (Coro (wait_for_write_locked True (Coro Lock_acquire))))) cs"
    and f0: "write_lock (wld l0) = write_lock (wld l)" "futures (wld l0) = futures (wld l)"
      "timers (wld l0) = timers (wld l)" "ready (wld l0) = ready (wld l)"
    using call_writes_result[OF s, of cs] by (simp_all add: rs_def l0_def)
  have mo: "\<forall>d \<in> set ds. map_of rs d = Some (Inr (Coro (wait_for_write_locked True (Coro Lock_acquire))))"
    using sub by (auto simp add: rs map_of_map_restrict)
  have lw: "locked_writes cs ds l = drive_writes ds rs l0"
    by (simp add: locked_writes_def rs_def l0_def)
  note dr = drive_writes_result[OF mo, of l0]
  show "fst (locked_writes cs ds l) = zip ds [length (futures (wld l))..<length (futures (wld l)) + length ds]"
    using dr by (simp add: lw f0)
  have w: "wld (snd (drive_writes ds rs l0)) = (wld l0)\<lparr>
            futures := futures (wld l) @ replicate (length ds) \<lparr>state = Pending, callbacks = []\<rparr>,
            ready := map TaskStep [length (futures (wld l))..<length (futures (wld l)) + length ds]\<rparr>"
    using dr by (simp add: f0 rd)
  have t: "\<And>i. i < length ds \<Longrightarrow> tasks (snd (drive_writes ds rs l0)) (length (futures (wld l)) + i)
       = Some (start (wait_for_write_locked True (Coro Lock_acquire)))"
    using dr by (simp add: f0)
  show "writes_driven (length (futures (wld l))) (length ds) (snd (locked_writes cs ds l))"
    using t by (simp add: writes_driven_def lw w f0 lk tm nth_append)
qed

text \<open>What is observed in these states: the queue, the grants and the completions.\<close>

lemma zip_upt_nth: "zip ds [n..<n + length ds] = map (\<lambda>i. (ds ! i, n + i)) [0..<length ds]"
  by (rule nth_equalityI) simp_all

lemma filter_eq_upt: "filter (\<lambda>x. x = i) [0..<m] = (if i < m then [i] else [])"
  by (induction m) auto

lemma map_nth_upt_drop: "map (\<lambda>i. ds ! i) [a..<length ds] = drop a ds"
proof -
  have "drop a ds = drop a (map (\<lambda>i. ds ! i) [0..<length ds])"
    by (simp add: map_nth)
  also have "\<dots> = map (\<lambda>i. ds ! i) [a..<length ds]"
    by (simp add: drop_map)
  finally show ?thesis by simp
qed

lemma waiting_write_one:
  assumes "i < length ds" "callbacks (get_future w f) = [TaskWakeup (n + i) f]"
  shows "waiting_write (zip ds [n..<n + length ds]) w f = [ds ! i]"
proof -
  have "filter ((\<lambda>(d, t). TaskWakeup t f \<in> set (callbacks (get_future w f))) \<circ> (\<lambda>i. (ds ! i, n + i)))
          [0..<length ds] = filter (\<lambda>x. x = i) [0..<length ds]"
    by (rule filter_cong) (simp_all add: assms(2))
  then show ?thesis
    using assms(1)
    by (simp add: waiting_write_def zip_upt_nth filter_map filter_eq_upt)
qed

lemma waiting_write_none:
  assumes "callbacks (get_future w f) = []"
  shows "waiting_write ts w f = []"
  using assms by (simp add: waiting_write_def)

lemma waiting_write_Nil: "waiting_write [] w f = []"
  by (simp add: waiting_write_def)

lemma concat_waiting:
  assumes "\<And>i. a \<le> i \<Longrightarrow> i < length ds \<Longrightarrow> waiting_write ts w (n + i) = [ds ! i]"
  shows "concat (map (waiting_write ts w) (map (\<lambda>i. n + i) [a..<length ds])) = drop a ds"
proof -
  have "map (waiting_write ts w) (map (\<lambda>i. n + i) [a..<length ds]) = map (\<lambda>i. [ds ! i]) [a..<length ds]"
    using assms by simp
  then have "concat (map (waiting_write ts w) (map (\<lambda>i. n + i) [a..<length ds]))
      = concat (map (\<lambda>i. [ds ! i]) [a..<length ds])"
    by (simp only:)
  also have "\<dots> = map (\<lambda>i. ds ! i) [a..<length ds]"
    by (induction "[a..<length ds]") simp_all
  finally show ?thesis
    by (simp add: map_nth_upt_drop)
qed

lemma rest_task_done:
  assumes "writes_rest n m j u l" "n + m \<le> length (futures (wld l))" "i < m"
  shows "is_done (wld l) (n + i) = (i < j)"
proof (cases "i < j")
  case True
  then show ?thesis
    using writes_rest_done[OF assms(1), of i] assms(2,3)
    by (simp add: is_done_def fut_state_def get_future_def)
next
  case False
  then show ?thesis
    using writes_rest_task[OF assms(1), of i] assms(2,3)
    by (simp add: is_done_def fut_state_def get_future_def)
qed

lemma rest_waiter_pending:
  assumes "writes_rest n m j u l" "j < i" "i < u" "n + m + u \<le> length (futures (wld l))"
  shows "\<not> is_done (wld l) (n + m + i)"
    and "callbacks (get_future (wld l) (n + m + i)) = [TaskWakeup (n + i) (n + m + i)]"
  using writes_rest_waiter(1)[OF assms(1-3)] assms(3,4)
  by (simp_all add: is_done_def fut_state_def get_future_def)

lemma rest_waiting_write:
  assumes "writes_rest n (length ds) j (length ds) l" "j < i" "i < length ds"
    "n + 2 * length ds \<le> length (futures (wld l))"
  shows "waiting_write (zip ds [n..<n + length ds]) (wld l) (n + length ds + i) = [ds ! i]"
proof -
  have "callbacks (get_future (wld l) (n + length ds + i)) = [TaskWakeup (n + i) (n + length ds + i)]"
    using writes_rest_waiter(1)[OF assms(1-3)] assms(3,4) by (simp add: get_future_def)
  then show ?thesis
    by (rule waiting_write_one[OF assms(3)])
qed

lemma state_task_done:
  assumes "writes_state n m k l" "i < m"
  shows "is_done (wld l) (n + i) = (i < k div 3)"
proof -
  have g: "writes_granted n m j l \<Longrightarrow> is_done (wld l) (n + i) = (i < j)" for j
    using assms(2) by (intro rest_task_done[where u = m]) (simp_all add: writes_granted_def)
  have h: "writes_holding n m j sf l \<Longrightarrow> is_done (wld l) (n + i) = (i < j)" for j sf
    using assms(2) by (intro rest_task_done[where u = m]) (simp_all add: writes_holding_def)
  have f: "writes_fired n m j sf l \<Longrightarrow> is_done (wld l) (n + i) = (i < j)" for j sf
    using assms(2) by (intro rest_task_done[where u = m]) (simp_all add: writes_fired_def)
  show ?thesis
    using assms g h f
    by (auto simp add: writes_state_def split: if_splits)
qed

lemma driven_task_done:
  assumes "writes_driven n m l" "i < m"
  shows "\<not> is_done (wld l) (n + i)"
  using assms by (simp add: writes_driven_def is_done_def fut_state_def get_future_def)

lemma state_lock_queue:
  assumes s: "writes_state n (length ds) k l"
  shows "lock_queue (zip ds [n..<n + length ds]) (wld l) = drop (Suc (k div 3)) ds"
proof -
  define m where "m = length ds"
  define ts where "ts = zip ds [n..<n + length ds]"
  have q: "concat (map (waiting_write ts (wld l)) (map (\<lambda>i. n + m + i) [Suc j..<m])) = drop (Suc j) ds"
    if "writes_rest n m j m l" "n + 2 * m \<le> length (futures (wld l))" for j
  proof -
    have "waiting_write ts (wld l) (n + m + i) = [ds ! i]" if "Suc j \<le> i" "i < length ds" for i
      using rest_waiting_write[of n ds j l i] that \<open>writes_rest n m j m l\<close>
        \<open>n + 2 * m \<le> length (futures (wld l))\<close>
      by (simp add: m_def ts_def)
    then show ?thesis
      using concat_waiting[of "Suc j" ds ts "wld l" "n + m"]
      by (simp add: m_def add.assoc)
  qed
  have g: "lock_queue ts (wld l) = drop (Suc j) ds" if gr: "writes_granted n m j l" for j
  proof (cases "j < m")
    case True
    have u: "[j..<m] = j # [Suc j..<m]"
      using True by (simp add: upt_conv_Cons)
    have hd: "waiting_write ts (wld l) (n + m + j) = []"
      using gr True by (intro waiting_write_none) (simp add: writes_granted_def get_future_def)
    show ?thesis
      using gr q[of j] hd
      by (simp add: lock_queue_def writes_granted_def u)
  next
    case False
    then show ?thesis
      using gr by (simp add: lock_queue_def writes_granted_def m_def)
  qed
  have h: "lock_queue ts (wld l) = drop (Suc j) ds" if "writes_holding n m j sf l" for j sf
    using that q[of j] by (simp add: lock_queue_def writes_holding_def)
  have f: "lock_queue ts (wld l) = drop (Suc j) ds" if "writes_fired n m j sf l" for j sf
    using that q[of j] by (simp add: lock_queue_def writes_fired_def)
  have "lock_queue ts (wld l) = drop (Suc (k div 3)) ds"
  proof (cases "m \<le> k div 3")
    case True
    then show ?thesis
      using s g[of m] by (simp add: writes_state_def m_def)
  next
    case False
    then show ?thesis
      using s g[of "k div 3"] h[of "k div 3"] f[of "k div 3"]
      by (auto simp add: writes_state_def m_def[symmetric] split: if_splits)
  qed
  then show ?thesis
    by (simp add: ts_def)
qed

lemma filter_waiters_none:
  assumes "\<And>i. a \<le> i \<Longrightarrow> i < m \<Longrightarrow> \<not> P (n + i)"
  shows "filter P (map (\<lambda>i. n + i) [a..<m]) = []"
proof -
  have "\<forall>i \<in> set [a..<m]. \<not> P (n + i)"
    using assms by simp
  then show ?thesis
    by (simp only: filter_empty_conv set_map) blast
qed

lemma state_grant_step:
  assumes s: "writes_state n (length ds) k l"
  shows "concat (map (waiting_write (zip ds [n..<n + length ds]) (wld l))
           (newly_granted (wld l) (wld (run_once l))))
         = (if k mod 3 = 2 \<and> Suc (k div 3) < length ds then [ds ! Suc (k div 3)] else [])"
proof -
  let ?m = "length ds"
  let ?ts = "zip ds [n..<n + length ds]"
  let ?j = "k div 3"
  have none: "newly_granted (wld l) (wld (run_once l)) = []"
    if w: "waiters (write_lock (wld l)) = map (\<lambda>i. n + ?m + i) [a..<?m]"
      and r: "writes_rest n ?m ?j ?m (run_once l)" and jm: "?j < a"
      and len: "n + 2 * ?m \<le> length (futures (wld (run_once l)))" for a
  proof -
    have "\<not> is_done (wld (run_once l)) (n + ?m + i)" if "a \<le> i" "i < ?m" for i
      using rest_waiter_pending(1)[OF r, of i] that jm len by simp
    then show ?thesis
      using filter_waiters_none[of a ?m "\<lambda>f. \<not> is_done (wld l) f \<and> is_done (wld (run_once l)) f" "n + ?m"]
      by (simp add: newly_granted_def w)
  qed
  show ?thesis
  proof (cases "?m \<le> ?j")
    case True
    then have "writes_granted n ?m ?m l"
      using s by (simp add: writes_state_def)
    then have "waiters (write_lock (wld l)) = []"
      by (simp add: writes_granted_def)
    then have "newly_granted (wld l) (wld (run_once l)) = []"
      by (simp add: newly_granted_def)
    then show ?thesis
      using True by simp
  next
    case False
    then have jm: "?j < ?m" by simp
    consider "k mod 3 = 0" | "k mod 3 = 1" | "k mod 3 = 2"
      by linarith
    then show ?thesis
    proof cases
      case 1
      then have g: "writes_granted n ?m ?j l"
        using s False by (simp add: writes_state_def)
      have h: "writes_holding n ?m ?j (length (futures (wld l))) (run_once l)"
        by (rule granted_holding[OF g jm])
      have u: "[?j..<?m] = ?j # [Suc ?j..<?m]"
        using jm by (simp add: upt_conv_Cons)
      have w: "waiters (write_lock (wld l)) = (n + ?m + ?j) # map (\<lambda>i. n + ?m + i) [Suc ?j..<?m]"
        using g by (simp add: writes_granted_def u)
      have d: "is_done (wld l) (n + ?m + ?j)"
        using g jm by (simp add: writes_granted_def is_done_def fut_state_def get_future_def)
      have "\<not> is_done (wld (run_once l)) (n + ?m + i)" if "Suc ?j \<le> i" "i < ?m" for i
        using rest_waiter_pending(1)[of n ?m ?j ?m "run_once l" i] h that
        by (simp add: writes_holding_def)
      then have "filter (\<lambda>f. \<not> is_done (wld l) f \<and> is_done (wld (run_once l)) f)
           (map (\<lambda>i. n + ?m + i) [Suc ?j..<?m]) = []"
        using filter_waiters_none[of "Suc ?j" ?m "\<lambda>f. \<not> is_done (wld l) f \<and> is_done (wld (run_once l)) f" "n + ?m"]
        by simp
      then have "newly_granted (wld l) (wld (run_once l)) = []"
        using d by (simp add: newly_granted_def w)
      then show ?thesis
        using 1 by simp
    next
      case 2
      then obtain sf where h: "writes_holding n ?m ?j sf l"
        using s False by (auto simp add: writes_state_def)
      have f: "writes_fired n ?m ?j sf (run_once l)"
        by (rule holding_fired[OF h])
      have "newly_granted (wld l) (wld (run_once l)) = []"
        using h f by (intro none[of "Suc ?j"]) (simp_all add: writes_holding_def writes_fired_def)
      then show ?thesis
        using 2 by simp
    next
      case 3
      then obtain sf where f: "writes_fired n ?m ?j sf l"
        using s False by (auto simp add: writes_state_def)
      have g: "writes_granted n ?m (Suc ?j) (run_once l)"
        by (rule fired_granted[OF f])
      show ?thesis
      proof (cases "Suc ?j < ?m")
        case True
        have u: "[Suc ?j..<?m] = Suc ?j # [Suc (Suc ?j)..<?m]"
          using True by (simp add: upt_conv_Cons)
        have w: "waiters (write_lock (wld l)) = (n + ?m + Suc ?j) # map (\<lambda>i. n + ?m + i) [Suc (Suc ?j)..<?m]"
          using f by (simp add: writes_fired_def u)
        have restA: "writes_rest n ?m ?j ?m l" and lenA: "n + 2 * ?m \<le> length (futures (wld l))"
          using f by (simp_all add: writes_fired_def)
        have restB: "writes_rest n ?m (Suc ?j) ?m (run_once l)"
          and lenB: "n + 2 * ?m \<le> length (futures (wld (run_once l)))"
          using g by (simp_all add: writes_granted_def)
        have a: "\<not> is_done (wld l) (n + ?m + Suc ?j)"
          using rest_waiter_pending(1)[OF restA, of "Suc ?j"] True lenA by simp
        have b: "is_done (wld (run_once l)) (n + ?m + Suc ?j)"
          using g True by (simp add: writes_granted_def is_done_def fut_state_def get_future_def)
        have "\<not> is_done (wld (run_once l)) (n + ?m + i)" if "Suc (Suc ?j) \<le> i" "i < ?m" for i
          using rest_waiter_pending(1)[OF restB, of i] that lenB by simp
        then have "filter (\<lambda>f. \<not> is_done (wld l) f \<and> is_done (wld (run_once l)) f)
             (map (\<lambda>i. n + ?m + i) [Suc (Suc ?j)..<?m]) = []"
          using filter_waiters_none[of "Suc (Suc ?j)" ?m
              "\<lambda>f. \<not> is_done (wld l) f \<and> is_done (wld (run_once l)) f" "n + ?m"]
          by simp
        then have ng: "newly_granted (wld l) (wld (run_once l)) = [n + ?m + Suc ?j]"
          using a b by (simp add: newly_granted_def w)
        have "waiting_write ?ts (wld l) (n + ?m + Suc ?j) = [ds ! Suc ?j]"
          using rest_waiting_write[of n ds ?j l "Suc ?j"] restA lenA True
          by simp
        then show ?thesis
          using 3 True by (simp add: ng)
      next
        case False
        then have "[Suc ?j..<?m] = []" by simp
        then have "waiters (write_lock (wld l)) = []"
          using f by (simp add: writes_fired_def)
        then have "newly_granted (wld l) (wld (run_once l)) = []"
          by (simp add: newly_granted_def)
        then show ?thesis
          using False by simp
      qed
    qed
  qed
qed

lemma completion_step:
  assumes A: "\<And>i. i < length ds \<Longrightarrow> dA (n + i) = (i < a)"
    and B: "\<And>i. i < length ds \<Longrightarrow> dB (n + i) = (i < b)"
    and ab: "b = a \<or> b = Suc a"
  shows "map fst (filter (\<lambda>(d, t). \<not> dA t \<and> dB t) (zip ds [n..<n + length ds]))
           = (if a < b \<and> a < length ds then [ds ! a] else [])"
proof -
  have "filter ((\<lambda>(d, t). \<not> dA t \<and> dB t) \<circ> (\<lambda>i. (ds ! i, n + i))) [0..<length ds]
          = filter (\<lambda>x. x = a \<and> a < b) [0..<length ds]"
    using ab by (intro filter_cong) (auto simp add: A B)
  also have "\<dots> = (if a < b then filter (\<lambda>x. x = a) [0..<length ds] else [])"
    by simp
  finally show ?thesis
    by (simp add: zip_upt_nth filter_map filter_eq_upt)
qed

lemma loop_task_done:
  assumes "writes_driven n m l" "0 < m" "i < m"
  shows "is_done (wld (run_loop k l)) (n + i) = (i < k div 3)"
proof (cases k)
  case 0
  then show ?thesis
    using driven_task_done[OF assms(1,3)] by simp
next
  case (Suc k')
  show ?thesis
    unfolding Suc
    by (rule state_task_done[OF run_loop_state[OF assms(1,2)] assms(3)])
qed

lemma completions_take:
  assumes d: "writes_driven n (length ds) l" and m: "ds \<noteq> []"
  shows "completions k (zip ds [n..<n + length ds]) l = take (k div 3) ds"
proof (induction k)
  case 0
  show ?case by simp
next
  case (Suc k)
  have m0: "0 < length ds" using m by simp
  have ab: "Suc k div 3 = k div 3 \<or> Suc k div 3 = Suc (k div 3)"
    by presburger
  have st: "map fst (filter (\<lambda>(d, t). \<not> is_done (wld (run_loop k l)) t \<and> is_done (wld (run_loop (Suc k) l)) t)
              (zip ds [n..<n + length ds]))
        = (if k div 3 < Suc k div 3 \<and> k div 3 < length ds then [ds ! (k div 3)] else [])"
    using loop_task_done[OF d m0, of _ k] loop_task_done[OF d m0, of _ "Suc k"] ab
    by (intro completion_step) simp_all
  show ?case
    using ab
    by (auto simp add: Suc st take_Suc_conv_app_nth simp del: run_loop.simps)
qed

lemma grants_take:
  assumes d: "writes_driven n (length ds) l" and m: "ds \<noteq> []"
  shows "grants k (zip ds [n..<n + length ds]) l = take (k div 3) (tl ds)"
proof (induction k)
  case 0
  show ?case by simp
next
  case (Suc k)
  have m0: "0 < length ds" using m by simp
  have st: "concat (map (waiting_write (zip ds [n..<n + length ds]) (wld (run_loop k l)))
           (newly_granted (wld (run_loop k l)) (wld (run_loop (Suc k) l))))
         = (if k mod 3 = 2 \<and> Suc (k div 3) < length ds then [ds ! Suc (k div 3)] else [])"
  proof (cases k)
    case 0
    have "waiters (write_lock (wld l)) = []"
      using d by (simp add: writes_driven_def)
    then show ?thesis
      by (simp add: 0 newly_granted_def)
  next
    case (Suc k')
    show ?thesis
      using state_grant_step[OF run_loop_state[OF d m0, of k']]
      by (simp add: Suc)
  qed
  have c: "(k mod 3 = 2 \<and> Suc k div 3 = Suc (k div 3)) \<or> (k mod 3 \<noteq> 2 \<and> Suc k div 3 = k div 3)"
    by presburger
  then consider "k mod 3 = 2 \<and> Suc k div 3 = Suc (k div 3)" | "k mod 3 \<noteq> 2 \<and> Suc k div 3 = k div 3"
    by blast
  then show ?case
  proof cases
    case 1
    show ?thesis
    proof (cases "Suc (k div 3) < length ds")
      case True
      then have "k div 3 < length (tl ds)" by simp
      then have "take (Suc (k div 3)) (tl ds) = take (k div 3) (tl ds) @ [ds ! Suc (k div 3)]"
        by (simp add: take_Suc_conv_app_nth nth_tl)
      then show ?thesis
        using 1 True by (simp add: Suc st del: run_loop.simps)
    next
      case False
      then show ?thesis
        using 1 by (simp add: Suc st del: run_loop.simps)
    qed
  next
    case 2
    then show ?thesis
      by (simp add: Suc st del: run_loop.simps)
  qed
qed

lemma completions_Nil: "completions k [] l = []"
  by (induction k) simp_all

lemma grants_Nil: "grants k [] l = []"
  by (induction k) (simp_all add: waiting_write_Nil)

lemma lock_queue_Nil: "lock_queue [] w = []"
  by (simp add: lock_queue_def waiting_write_Nil)

lemma locked_writes_order:
  assumes ls: "logstart (wld l) \<noteq> None"
    and lk: "write_lock (wld l) = \<lparr>locked = False, waiters = []\<rparr>"
    and rd: "ready (wld l) = []" and tm: "timers (wld l) = []"
    and sub: "set ds \<subseteq> set cs"
  shows "map fst (fst (locked_writes cs ds l)) = ds"
    and "write_lock (wld (snd (locked_writes cs ds l))) = \<lparr>locked = False, waiters = []\<rparr>"
    and "lock_queue (fst (locked_writes cs ds l)) (wld (run_loop (Suc k) (snd (locked_writes cs ds l))))
           = drop (Suc (Suc k div 3)) ds"
    and "grants k (fst (locked_writes cs ds l)) (snd (locked_writes cs ds l)) = take (k div 3) (tl ds)"
    and "completions k (fst (locked_writes cs ds l)) (snd (locked_writes cs ds l)) = take (k div 3) ds"
proof -
  define n where "n = length (futures (wld l))"
  define l1 where "l1 = snd (locked_writes cs ds l)"
  have ts: "fst (locked_writes cs ds l) = zip ds [n..<n + length ds]"
    and d: "writes_driven n (length ds) l1"
    using locked_writes_driven[OF ls lk rd tm sub] by (simp_all add: n_def l1_def)
  show "map fst (fst (locked_writes cs ds l)) = ds"
    by (simp add: ts)
  show "write_lock (wld (snd (locked_writes cs ds l))) = \<lparr>locked = False, waiters = []\<rparr>"
    using d by (simp add: writes_driven_def l1_def)
  show "lock_queue (fst (locked_writes cs ds l)) (wld (run_loop (Suc k) (snd (locked_writes cs ds l))))
           = drop (Suc (Suc k div 3)) ds"
  proof (cases "ds = []")
    case True
    then show ?thesis
      using ts by (simp add: lock_queue_Nil del: run_loop.simps)
  next
    case False
    then have "0 < length ds" by simp
    then show ?thesis
      using state_lock_queue[OF run_loop_state[OF d, of k]]
      by (simp only: ts l1_def)
  qed
  show "grants k (fst (locked_writes cs ds l)) (snd (locked_writes cs ds l)) = take (k div 3) (tl ds)"
  proof (cases "ds = []")
    case True
    then show ?thesis
      using ts by (simp add: grants_Nil)
  next
    case False
    show ?thesis
      using grants_take[OF d False, of k] by (simp only: ts l1_def)
  qed
  show "completions k (fst (locked_writes cs ds l)) (snd (locked_writes cs ds l)) = take (k div 3) ds"
  proof (cases "ds = []")
    case True
    then show ?thesis
      using ts by (simp add: completions_Nil)
  next
    case False
    show ?thesis
      using completions_take[OF d False, of k] by (simp only: ts l1_def)
  qed
qed

text \<open>
  Claim C10, amended. A call of \<open>os_async_write\<close> with \<open>lock = True\<close> prints its line
  and returns the coroutine object \<open>wait_for_write_locked\<close> holding the coroutine object
  of \<^verbatim>\<open>write_lock.acquire()\<close>, neither of which has run: the call changes neither the
  lock nor its queue, creates no future and no timer, and queues nothing. (If \<^verbatim>\<open>log\<close>
  raises, the call raises and still changes none of them.) The acquire is performed
  when the returned awaitable is first driven: that step takes the lock if it is free
  with an empty queue, and otherwise appends a new waiter future to the lock's queue.

  The order of the queue, hence the order in which locked writes are granted, is
  therefore the order in which the returned awaitables are first driven, whatever the
  order of the calls. Let the lock be free with an empty queue and the loop have nothing
  scheduled, let the writes \<open>cs\<close> be requested by calls of
  \<^verbatim>\<open>os_async_write(i, lock=True)\<close> in the order \<open>cs\<close>, and let the awaitables of the
  writes \<open>ds\<close> among them be handed to tasks in the order \<open>ds\<close> (each awaitable to one
  task: a coroutine object is driven by one task only), so that they are first driven
  in the order \<open>ds\<close>. Then:
  \<^item> after all the calls and the creation of the tasks the lock is still free and its
    queue is empty;
  \<^item> after the first iteration of the loop, in which every task takes its first step,
    the first write of \<open>ds\<close> holds the lock and the queue of the lock holds the other
    writes in the order \<open>ds\<close>; after every later iteration the queue holds the writes
    that have not been granted the lock yet, still in the order \<open>ds\<close>;
  \<^item> the releases grant the lock to the queued writes in the order \<open>ds\<close>: the writes
    granted during the first \<open>k\<close> iterations are the first \<open>k div 3\<close> of the queued
    writes \<open>tl ds\<close>, one grant every three iterations (the timer of the holder fires, the
    holder finishes and releases, the granted write is resumed and starts its timed
    write), and after \<open>3 * length ds\<close> iterations all of them, in the order \<open>ds\<close>;
  \<^item> the writes complete in the order \<open>ds\<close>: those completed during the first \<open>k\<close>
    iterations are the first \<open>k div 3\<close> writes of \<open>ds\<close>, and after \<open>3 * length ds\<close>
    iterations all of them, in the order \<open>ds\<close>.
  None of this depends on the order \<open>cs\<close> of the calls.
\<close>

theorem os_async_write_acquires_at_first_drive:
  "write_lock (snd (os_async_write i True w)) = write_lock w
   \<and> futures (snd (os_async_write i True w)) = futures w
   \<and> timers (snd (os_async_write i True w)) = timers w
   \<and> ready (snd (os_async_write i True w)) = ready w
   \<and> (case logstart w of
         None \<Rightarrow> isl (fst (os_async_write i True w))
       | Some s \<Rightarrow> fst (os_async_write i True w)
                    = Inr (Coro (wait_for_write_locked True (Coro Lock_acquire))))
   \<and> write_lock (wld (snd (step (wait_for_write_locked True (Coro Lock_acquire)) l)))
       = (if \<not> locked (write_lock (wld l)) \<and> waiters (write_lock (wld l)) = []
          then \<lparr>locked = True, waiters = []\<rparr>
          else (write_lock (wld l))\<lparr>waiters := waiters (write_lock (wld l)) @ [length (futures (wld l))]\<rparr>)
   \<and> (logstart (wld l0) \<noteq> None
        \<and> write_lock (wld l0) = \<lparr>locked = False, waiters = []\<rparr>
        \<and> ready (wld l0) = [] \<and> timers (wld l0) = []
        \<and> distinct ds \<and> set ds \<subseteq> set cs \<longrightarrow>
        map fst (fst (locked_writes cs ds l0)) = ds
      \<and> write_lock (wld (snd (locked_writes cs ds l0))) = \<lparr>locked = False, waiters = []\<rparr>
      \<and> lock_queue (fst (locked_writes cs ds l0))
           (wld (run_loop 1 (snd (locked_writes cs ds l0)))) = tl ds
      \<and> lock_queue (fst (locked_writes cs ds l0))
           (wld (run_loop (Suc k) (snd (locked_writes cs ds l0)))) = drop (Suc (Suc k div 3)) ds
      \<and> grants k (fst (locked_writes cs ds l0)) (snd (locked_writes cs ds l0))
           = take (k div 3) (tl ds)
      \<and> grants (3 * length ds) (fst (locked_writes cs ds l0)) (snd (locked_writes cs ds l0))
           = tl ds
      \<and> completions k (fst (locked_writes cs ds l0)) (snd (locked_writes cs ds l0))
           = take (k div 3) ds
      \<and> completions (3 * length ds) (fst (locked_writes cs ds l0)) (snd (locked_writes cs ds l0))
           = ds)"
proof -
  have a: "write_lock (snd (os_async_write i True w)) = write_lock w
   \<and> futures (snd (os_async_write i True w)) = futures w
   \<and> timers (snd (os_async_write i True w)) = timers w
   \<and> ready (snd (os_async_write i True w)) = ready w
   \<and> (case logstart w of
         None \<Rightarrow> isl (fst (os_async_write i True w))
       | Some s \<Rightarrow> fst (os_async_write i True w)
                    = Inr (Coro (wait_for_write_locked True (Coro Lock_acquire))))
   \<and> write_lock (wld (snd (step (wait_for_write_locked True (Coro Lock_acquire)) l)))
       = (if \<not> locked (write_lock (wld l)) \<and> waiters (write_lock (wld l)) = []
          then \<lparr>locked = True, waiters = []\<rparr>
          else (write_lock (wld l))\<lparr>waiters := waiters (write_lock (wld l)) @ [length (futures (wld l))]\<rparr>)"
    using os_async_write_locked_keeps[of i w] os_async_write_locked_result[of i w]
      step_locked_write[of l]
    by (simp only: simp_thms)
  have b: "map fst (fst (locked_writes cs ds l0)) = ds
      \<and> write_lock (wld (snd (locked_writes cs ds l0))) = \<lparr>locked = False, waiters = []\<rparr>
      \<and> lock_queue (fst (locked_writes cs ds l0))
           (wld (run_loop 1 (snd (locked_writes cs ds l0)))) = tl ds
      \<and> lock_queue (fst (locked_writes cs ds l0))
           (wld (run_loop (Suc k) (snd (locked_writes cs ds l0)))) = drop (Suc (Suc k div 3)) ds
      \<and> grants k (fst (locked_writes cs ds l0)) (snd (locked_writes cs ds l0))
           = take (k div 3) (tl ds)
      \<and> grants (3 * length ds) (fst (locked_writes cs ds l0)) (snd (locked_writes cs ds l0))
           = tl ds
      \<and> completions k (fst (locked_writes cs ds l0)) (snd (locked_writes cs ds l0))
           = take (k div 3) ds
      \<and> completions (3 * length ds) (fst (locked_writes cs ds l0)) (snd (locked_writes cs ds l0))
           = ds"
    if ls: "logstart (wld l0) \<noteq> None"
      and lk: "write_lock (wld l0) = \<lparr>locked = False, waiters = []\<rparr>"
      and rd: "ready (wld l0) = []" and tm: "timers (wld l0) = []"
      and sub: "set ds \<subseteq> set cs"
  proof -
    note o = locked_writes_order[OF ls lk rd tm sub]
    have q1: "lock_queue (fst (locked_writes cs ds l0))
           (wld (run_loop 1 (snd (locked_writes cs ds l0)))) = tl ds"
      using o(3)[of 0] by (simp add: drop_Suc del: run_loop.simps)
    have g3: "grants (3 * length ds) (fst (locked_writes cs ds l0)) (snd (locked_writes cs ds l0))
           = tl ds"
      using o(4)[of "3 * length ds"] by simp
    have c3: "completions (3 * length ds) (fst (locked_writes cs ds l0)) (snd (locked_writes cs ds l0))
           = ds"
      using o(5)[of "3 * length ds"] by simp
    show ?thesis
      using o(1) o(2) q1 o(3)[of k] o(4)[of k] g3 o(5)[of k] c3
      by (simp only: simp_thms)
  qed
  show ?thesis
    using a b by blast
qed

text \<open>
  Three locked writes requested in the order 0, 1, 2 and first driven in the order
  2, 0, 1: write 2 takes the lock, the queue of the lock is 0, 1, the grants go to 0 and
  then to 1, and the writes complete in the order 2, 0, 1.
\<close>

theorem os_async_write_acquires_at_first_drive_witness:
  "logstart (wld started_loop) \<noteq> None
   \<and> write_lock (wld started_loop) = \<lparr>locked = False, waiters = []\<rparr>
   \<and> ready (wld started_loop) = [] \<and> timers (wld started_loop) = []
   \<and> distinct [2, 0, 1::nat] \<and> set [2, 0, 1::nat] \<subseteq> set [0, 1, 2]
   \<and> map fst (fst (locked_writes [0, 1, 2] [2, 0, 1] started_loop)) = [2, 0, 1]
   \<and> write_lock (wld (snd (locked_writes [0, 1, 2] [2, 0, 1] started_loop)))
        = \<lparr>locked = False, waiters = []\<rparr>
   \<and> lock_queue (fst (locked_writes [0, 1, 2] [2, 0, 1] started_loop))
        (wld (run_loop 1 (snd (locked_writes [0, 1, 2] [2, 0, 1] started_loop)))) = [0, 1]
   \<and> grants 4 (fst (locked_writes [0, 1, 2] [2, 0, 1] started_loop))
        (snd (locked_writes [0, 1, 2] [2, 0, 1] started_loop)) = [0]
   \<and> grants (3 * length [2, 0, 1::nat]) (fst (locked_writes [0, 1, 2] [2, 0, 1] started_loop))
        (snd (locked_writes [0, 1, 2] [2, 0, 1] started_loop)) = [0, 1]
   \<and> completions 4 (fst (locked_writes [0, 1, 2] [2, 0, 1] started_loop))
        (snd (locked_writes [0, 1, 2] [2, 0, 1] started_loop)) = [2]
   \<and> completions (3 * length [2, 0, 1::nat]) (fst (locked_writes [0, 1, 2] [2, 0, 1] started_loop))
        (snd (locked_writes [0, 1, 2] [2, 0, 1] started_loop)) = [2, 0, 1]"
proof -
  have p: "logstart (wld started_loop) \<noteq> None
   \<and> write_lock (wld started_loop) = \<lparr>locked = False, waiters = []\<rparr>
   \<and> ready (wld started_loop) = [] \<and> timers (wld started_loop) = []
   \<and> distinct [2, 0, 1::nat] \<and> set [2, 0, 1::nat] \<subseteq> set [0, 1, 2]"
    by (simp add: started_loop_def log_def initial_world_def)
  have t: "map fst (fst (locked_writes [0, 1, 2] [2, 0, 1] started_loop)) = [2, 0, 1]
      \<and> write_lock (wld (snd (locked_writes [0, 1, 2] [2, 0, 1] started_loop)))
           = \<lparr>locked = False, waiters = []\<rparr>
      \<and> lock_queue (fst (locked_writes [0, 1, 2] [2, 0, 1] started_loop))
           (wld (run_loop 1 (snd (locked_writes [0, 1, 2] [2, 0, 1] started_loop)))) = tl [2, 0, 1]
      \<and> lock_queue (fst (locked_writes [0, 1, 2] [2, 0, 1] started_loop))
           (wld (run_loop (Suc 4) (snd (locked_writes [0, 1, 2] [2, 0, 1] started_loop))))
           = drop (Suc (Suc 4 div 3)) [2, 0, 1]
      \<and> grants 4 (fst (locked_writes [0, 1, 2] [2, 0, 1] started_loop))
           (snd (locked_writes [0, 1, 2] [2, 0, 1] started_loop)) = take (4 div 3) (tl [2, 0, 1])
      \<and> grants (3 * length [2, 0, 1::nat]) (fst (locked_writes [0, 1, 2] [2, 0, 1] started_loop))
           (snd (locked_writes [0, 1, 2] [2, 0, 1] started_loop)) = tl [2, 0, 1]
      \<and> completions 4 (fst (locked_writes [0, 1, 2] [2, 0, 1] started_loop))
           (snd (locked_writes [0, 1, 2] [2, 0, 1] started_loop)) = take (4 div 3) [2, 0, 1]
      \<and> completions (3 * length [2, 0, 1::nat]) (fst (locked_writes [0, 1, 2] [2, 0, 1] started_loop))
           (snd (locked_writes [0, 1, 2] [2, 0, 1] started_loop)) = [2, 0, 1]"
    using os_async_write_acquires_at_first_drive
      [where ?l0.0 = started_loop and cs = "[0, 1, 2]" and ds = "[2, 0, 1]" and k = 4] p
    by blast
  have e: "tl [2, 0, 1::nat] = [0, 1]" "take (4 div 3) [0, 1::nat] = [0]"
    "take (4 div 3) [2, 0, 1::nat] = [2]"
    by simp_all
  show ?thesis
    using p t by (simp only: e simp_thms)
qed

lemma locked_writes_example:
  "lock_queue (fst (locked_writes [0, 1, 2] [2, 0, 1] started_loop))
        (wld (run_loop 1 (snd (locked_writes [0, 1, 2] [2, 0, 1] started_loop)))) = [0, 1]
   \<and> write_lock (wld (run_loop 1 (snd (locked_writes [0, 1, 2] [2, 0, 1] started_loop))))
        = \<lparr>locked = True, waiters = [4, 5]\<rparr>
   \<and> grants 9 (fst (locked_writes [0, 1, 2] [2, 0, 1] started_loop))
        (snd (locked_writes [0, 1, 2] [2, 0, 1] started_loop)) = [0, 1]
   \<and> completions 9 (fst (locked_writes [0, 1, 2] [2, 0, 1] started_loop))
        (snd (locked_writes [0, 1, 2] [2, 0, 1] started_loop)) = [2, 0, 1]"
  by code_simp

section \<open>The notebook's scenarios, end to end\<close>

lemma example10_transcript:
  "transcript (run_main 50 (example10_fixed_write_with_gather False) initial_world) =
     Some (7, [(0, ''Starting''), (0, ''[X0] > Starting 10s CPU work 0''),
       (2, ''[X0] < Done with 10s CPU work 0''),
       (2, ''[O0] >> Tell OS to write output 0''),
       (2, ''[W0] >>> OS started writing 0''),
       (2, ''[X1] > Starting 10s CPU work 1''),
       (4, ''[X1] < Done with 10s CPU work 1''),
       (4, ''[W0] <<< OS done writing 0''),
       (4, ''[O0] << OS writing completed 0''),
       (4, ''[O1] >> Tell OS to write output 1''),
       (4, ''[W1] >>> OS started writing 1''),
       (4, ''[X2] > Starting 10s CPU work 2''),
       (6, ''[X2] < Done with 10s CPU work 2''),
       (6, ''[W1] <<< OS done writing 1''),
       (6, ''[O1] << OS writing completed 1''),
       (6, ''[O2] >> Tell OS to write output 2''),
       (6, ''[W2] >>> OS started writing 2''), (6, ''Awaiting last write''),
       (7, ''[W2] <<< OS done writing 2''),
       (7, ''[O2] << OS writing completed 2''), (7, ''Done'')])"
  by code_simp

lemma example2_transcript:
  "transcript (run_main 50 (example2_await_before_next_write False) initial_world) =
     Some (9, [(0, ''Starting''), (0, ''[X0] > Starting 10s CPU work 0''),
       (2, ''[X0] < Done with 10s CPU work 0''),
       (2, ''[X1] > Starting 10s CPU work 1''),
       (4, ''[X1] < Done with 10s CPU work 1''),
       (4, ''[O0] >> Tell OS to write output 0''),
       (4, ''[W0] >>> OS started writing 0''),
       (5, ''[W0] <<< OS done writing 0''),
       (5, ''[O0] << OS writing completed 0''),
       (5, ''[X2] > Starting 10s CPU work 2''),
       (7, ''[X2] < Done with 10s CPU work 2''),
       (7, ''[O1] >> Tell OS to write output 1''),
       (7, ''[W1] >>> OS started writing 1''),
       (8, ''[W1] <<< OS done writing 1''),
       (8, ''[O1] << OS writing completed 1''),
       (8, ''[O2] >> Tell OS to write output 2''),
       (8, ''[W2] >>> OS started writing 2''),
       (9, ''[W2] <<< OS done writing 2''),
       (9, ''[O2] << OS writing completed 2''), (9, ''Done'')])"
  by code_simp

lemma example10_locked_transcript:
  "transcript (run_main 50 (example10_fixed_write_with_gather True) initial_world) =
     Some (7, [(0, ''Starting''), (0, ''[X0] > Starting 10s CPU work 0''),
       (2, ''[X0] < Done with 10s CPU work 0''),
       (2, ''[O0] >> Tell OS to write output 0''),
       (2, ''[W0] >>> OS started writing 0''),
       (2, ''[X1] > Starting 10s CPU work 1''),
       (4, ''[X1] < Done with 10s CPU work 1''),
       (4, ''[O0] << OS writing completed 0''),
       (4, ''[O1] >> Tell OS to write output 1''),
       (4, ''[W1] >>> OS started writing 1''),
       (4, ''[X2] > Starting 10s CPU work 2''),
       (6, ''[X2] < Done with 10s CPU work 2''),
       (6, ''[O1] << OS writing completed 1''),
       (6, ''[O2] >> Tell OS to write output 2''),
       (6, ''[W2] >>> OS started writing 2''), (6, ''Awaiting last write''),
       (7, ''[O2] << OS writing completed 2''), (7, ''Done'')])"
  by code_simp

lemma example2_locked_transcript:
  "transcript (run_main 50 (example2_await_before_next_write True) initial_world) =
     Some (9, [(0, ''Starting''), (0, ''[X0] > Starting 10s CPU work 0''),
       (2, ''[X0] < Done with 10s CPU work 0''),
       (2, ''[X1] > Starting 10s CPU work 1''),
       (4, ''[X1] < Done with 10s CPU work 1''),
       (4, ''[O0] >> Tell OS to write output 0''),
       (4, ''[W0] >>> OS started writing 0''),
       (5, ''[O0] << OS writing completed 0''),
       (5, ''[X2] > Starting 10s CPU work 2''),
       (7, ''[X2] < Done with 10s CPU work 2''),
       (7, ''[O1] >> Tell OS to write output 1''),
       (7, ''[W1] >>> OS started writing 1''),
       (8, ''[O1] << OS writing completed 1''),
       (8, ''[O2] >> Tell OS to write output 2''),
       (8, ''[W2] >>> OS started writing 2''),
       (9, ''[O2] << OS writing completed 2''), (9, ''Done'')])"
  by code_simp

text \<open>
  Claim C4. With \<open>WORK_TIME = 2\<close>, \<open>WRITE_TIME = 1\<close> and three iterations, run from the
  initial state at time 0, with and without the single-writer lock (\<open>lock = True\<close> and
  \<open>lock = False\<close>; the notebook runs \<open>lock = False\<close>):
  \<^item> the loop with the eager adapter, which awaits the previous handle before it starts
    the next write (\<open>example10_fixed_write_with_gather\<close>), ends after 7 time-units,
    \<open>3 * WORK_TIME + WRITE_TIME\<close>. Each write is started at the end of its iteration's
    CPU work (times 2, 4, 6) and its completion is seen right after the next CPU work
    (times 4, 6) or one time-unit after the last one (time 7): writes 0 and 1 overlap
    the CPU work of the next iteration.
  \<^item> the same loop with the lazy coroutine and no suspension point inside the loop but
    the awaits of the previous write (\<open>example2_await_before_next_write\<close>) ends after 9
    time-units, \<open>3 * WORK_TIME + 3 * WRITE_TIME\<close>. Each write is started only when it is
    awaited (times 4, 7, 8) and the loop waits one time-unit for it (until 5, 8, 9)
    while no CPU work runs: there is no overlap.
  The printed lines are, up to the rounding of the clock, those that the notebook
  records for the two scenarios.
\<close>

theorem end_to_end_elapsed:
  "end_time (run_main 50 (example10_fixed_write_with_gather lock) initial_world)
     = Some (3 * WORK_TIME + WRITE_TIME)
   \<and> end_time (run_main 50 (example2_await_before_next_write lock) initial_world)
     = Some (3 * WORK_TIME + 3 * WRITE_TIME)
   \<and> 3 * WORK_TIME + WRITE_TIME = 7 \<and> 3 * WORK_TIME + 3 * WRITE_TIME = 9
   \<and> transcript (run_main 50 (example10_fixed_write_with_gather False) initial_world) =
     Some (7, [(0, ''Starting''), (0, ''[X0] > Starting 10s CPU work 0''),
       (2, ''[X0] < Done with 10s CPU work 0''),
       (2, ''[O0] >> Tell OS to write output 0''),
       (2, ''[W0] >>> OS started writing 0''),
       (2, ''[X1] > Starting 10s CPU work 1''),
       (4, ''[X1] < Done with 10s CPU work 1''),
       (4, ''[W0] <<< OS done writing 0''),
       (4, ''[O0] << OS writing completed 0''),
       (4, ''[O1] >> Tell OS to write output 1''),
       (4, ''[W1] >>> OS started writing 1''),
       (4, ''[X2] > Starting 10s CPU work 2''),
       (6, ''[X2] < Done with 10s CPU work 2''),
       (6, ''[W1] <<< OS done writing 1''),
       (6, ''[O1] << OS writing completed 1''),
       (6, ''[O2] >> Tell OS to write output 2''),
       (6, ''[W2] >>> OS started writing 2''), (6, ''Awaiting last write''),
       (7, ''[W2] <<< OS done writing 2''),
       (7, ''[O2] << OS writing completed 2''), (7, ''Done'')])
   \<and> transcript (run_main 50 (example2_await_before_next_write False) initial_world) =
     Some (9, [(0, ''Starting''), (0, ''[X0] > Starting 10s CPU work 0''),
       (2, ''[X0] < Done with 10s CPU work 0''),
       (2, ''[X1] > Starting 10s CPU work 1''),
       (4, ''[X1] < Done with 10s CPU work 1''),
       (4, ''[O0] >> Tell OS to write output 0''),
       (4, ''[W0] >>> OS started writing 0''),
       (5, ''[W0] <<< OS done writing 0''),
       (5, ''[O0] << OS writing completed 0''),
       (5, ''[X2] > Starting 10s CPU work 2''),
       (7, ''[X2] < Done with 10s CPU work 2''),
       (7, ''[O1] >> Tell OS to write output 1''),
       (7, ''[W1] >>> OS started writing 1''),
       (8, ''[W1] <<< OS done writing 1''),
       (8, ''[O1] << OS writing completed 1''),
       (8, ''[O2] >> Tell OS to write output 2''),
       (8, ''[W2] >>> OS started writing 2''),
       (9, ''[W2] <<< OS done writing 2''),
       (9, ''[O2] << OS writing completed 2''), (9, ''Done'')])"
proof -
  have t: "\<And>r n xs. transcript r = Some (n, xs) \<Longrightarrow> end_time r = Some n"
    by (auto simp add: transcript_def end_time_def)
  have c: "3 * WORK_TIME + WRITE_TIME = 7" "3 * WORK_TIME + 3 * WRITE_TIME = 9"
    by (simp_all add: WORK_TIME_def WRITE_TIME_def)
  have e10: "end_time (run_main 50 (example10_fixed_write_with_gather lock) initial_world) = Some 7"
    by (cases lock) (simp_all only: t[OF example10_transcript] t[OF example10_locked_transcript])
  have e2: "end_time (run_main 50 (example2_await_before_next_write lock) initial_world) = Some 9"
    by (cases lock) (simp_all only: t[OF example2_transcript] t[OF example2_locked_transcript])
  show ?thesis
    using e10 e2 example10_transcript example2_transcript
    by (simp only: c simp_thms)
qed

text \<open>
  The other scenarios that the embedding covers reproduce the transcripts of the
  notebook as well: awaiting at once (example 1) and a task without a suspension point
  in the loop (example 6) take 9 time-units, a task with \<^verbatim>\<open>asyncio.sleep(0)\<close> (example 7)
  and the function changed by hand (\<^verbatim>\<open>write_output_awaitable\<close>) take 7.
\<close>

lemma example1_transcript:
  "transcript (run_main 50 (example1_await_immediately False) initial_world) =
     Some (9, [(0, ''Starting''), (0, ''[X0] > Starting 10s CPU work 0''),
       (2, ''[X0] < Done with 10s CPU work 0''),
       (2, ''[O0] >> Tell OS to write output 0''),
       (2, ''[W0] >>> OS started writing 0''),
       (3, ''[W0] <<< OS done writing 0''),
       (3, ''[O0] << OS writing completed 0''),
       (3, ''[X1] > Starting 10s CPU work 1''),
       (5, ''[X1] < Done with 10s CPU work 1''),
       (5, ''[O1] >> Tell OS to write output 1''),
       (5, ''[W1] >>> OS started writing 1''),
       (6, ''[W1] <<< OS done writing 1''),
       (6, ''[O1] << OS writing completed 1''),
       (6, ''[X2] > Starting 10s CPU work 2''),
       (8, ''[X2] < Done with 10s CPU work 2''),
       (8, ''[O2] >> Tell OS to write output 2''),
       (8, ''[W2] >>> OS started writing 2''),
       (9, ''[W2] <<< OS done writing 2''),
       (9, ''[O2] << OS writing completed 2''), (9, ''Done'')])"
  by code_simp

lemma example6_transcript:
  "transcript (run_main 50 (example6_await_before_next_write_with_task False) initial_world) =
     Some (9, [(0, ''Starting''), (0, ''[X0] > Starting 10s CPU work 0''),
       (2, ''[X0] < Done with 10s CPU work 0''),
       (2, ''[X1] > Starting 10s CPU work 1''),
       (4, ''[X1] < Done with 10s CPU work 1''),
       (4, ''[O0] >> Tell OS to write output 0''),
       (4, ''[W0] >>> OS started writing 0''),
       (5, ''[W0] <<< OS done writing 0''),
       (5, ''[O0] << OS writing completed 0''),
       (5, ''[X2] > Starting 10s CPU work 2''),
       (7, ''[X2] < Done with 10s CPU work 2''),
       (7, ''[O1] >> Tell OS to write output 1''),
       (7, ''[W1] >>> OS started writing 1''),
       (8, ''[W1] <<< OS done writing 1''),
       (8, ''[O1] << OS writing completed 1''),
       (8, ''[O2] >> Tell OS to write output 2''),
       (8, ''[W2] >>> OS started writing 2''),
       (9, ''[W2] <<< OS done writing 2''),
       (9, ''[O2] << OS writing completed 2''), (9, ''Done'')])"
  by code_simp

lemma example7_transcript:
  "transcript (run_main 50 (example7_sleep_with_task False) initial_world) =
     Some (7, [(0, ''Starting''), (0, ''[X0] > Starting 10s CPU work 0''),
       (2, ''[X0] < Done with 10s CPU work 0''),
       (2, ''[O0] >> Tell OS to write output 0''),
       (2, ''[W0] >>> OS started writing 0''),
       (2, ''[X1] > Starting 10s CPU work 1''),
       (4, ''[X1] < Done with 10s CPU work 1''),
       (4, ''[W0] <<< OS done writing 0''),
       (4, ''[O0] << OS writing completed 0''),
       (4, ''[O1] >> Tell OS to write output 1''),
       (4, ''[W1] >>> OS started writing 1''),
       (4, ''[X2] > Starting 10s CPU work 2''),
       (6, ''[X2] < Done with 10s CPU work 2''),
       (6, ''[W1] <<< OS done writing 1''),
       (6, ''[O1] << OS writing completed 1''),
       (6, ''[O2] >> Tell OS to write output 2''),
       (6, ''[W2] >>> OS started writing 2''), (6, ''Awaiting last write''),
       (7, ''[W2] <<< OS done writing 2''),
       (7, ''[O2] << OS writing completed 2''), (7, ''Done'')])"
  by code_simp

lemma example2_fixed_function_transcript:
  "transcript (run_main 50 (example2_await_before_next_write_fixed_function False) initial_world) =
     Some (7, [(0, ''Starting''), (0, ''[X0] > Starting 10s CPU work 0''),
       (2, ''[X0] < Done with 10s CPU work 0''),
       (2, ''[O0] << Tell OS to write output 0''),
       (2, ''[W0] >>> OS started writing 0''),
       (2, ''[X1] > Starting 10s CPU work 1''),
       (4, ''[X1] < Done with 10s CPU work 1''),
       (4, ''[W0] <<< OS done writing 0''),
       (4, ''[O0] << OS writing completed 0''),
       (4, ''[O1] << Tell OS to write output 1''),
       (4, ''[W1] >>> OS started writing 1''),
       (4, ''[X2] > Starting 10s CPU work 2''),
       (6, ''[X2] < Done with 10s CPU work 2''),
       (6, ''[W1] <<< OS done writing 1''),
       (6, ''[O1] << OS writing completed 1''),
       (6, ''[O2] << Tell OS to write output 2''),
       (6, ''[W2] >>> OS started writing 2''), (6, ''Awaiting last write''),
       (7, ''[W2] <<< OS done writing 2''),
       (7, ''[O2] << OS writing completed 2''), (7, ''Done'')])"
  by code_simp

end
